theory Spec2Isabelle
  imports Main "HOL-Library.Sublist"
begin

section \<open>Data model of the reporter (internal/pkg/report/reporter.go)\<close>

text \<open>
  The protobuf enumeration \<^verbatim>\<open>runnerv1.Result\<close>, in the order of its numbering.
\<close>

datatype Result =
    RESULT_UNSPECIFIED
  | RESULT_SUCCESS
  | RESULT_FAILURE
  | RESULT_CANCELLED
  | RESULT_SKIPPED

text \<open>
  Time instants (\<^verbatim>\<open>time.Time\<close>, \<^verbatim>\<open>timestamppb.Timestamp\<close>) are integers; a
  nil timestamp pointer is \<open>None\<close>.
\<close>

type_synonym timestamp = int

record LogRow =
  Time :: timestamp
  Content :: string

text \<open>
  \<^verbatim>\<open>runnerv1.StepState\<close> and \<^verbatim>\<open>runnerv1.TaskState\<close>. Both messages have fields
  Id, Result, StartedAt and StoppedAt; the step's fields carry the prefix \<open>step\<close>.
  Go's 64-bit integers are modelled as unbounded integers: the offsets and lengths count
  rows held in memory and never come near the 64-bit range.
\<close>

record StepState =
  stepId :: int
  stepResult :: Result
  stepStartedAt :: "timestamp option"
  stepStoppedAt :: "timestamp option"
  LogIndex :: int
  LogLength :: int

record TaskState =
  Id :: int
  Result :: Result
  StartedAt :: "timestamp option"
  StoppedAt :: "timestamp option"
  Steps :: "StepState list"

text \<open>
  An error value is its message (\<^verbatim>\<open>fmt.Errorf\<close>); a nil error is \<open>None\<close> of
  \<open>error option\<close>. The error \<^verbatim>\<open>retry.Do\<close> returns when its attempts have failed is
  the list of the errors it has collected (\<^verbatim>\<open>retry.Error\<close>). A run-time panic is a
  result of its own.
\<close>

datatype error = Errorf string | retry_Error "error list"

datatype panic = Panic string

text \<open>
  A value of the \<^verbatim>\<open>sync.Map\<close> of outputs: the string still to be sent, or the
  tombstone \<^verbatim>\<open>struct{}{}\<close> stored once the coordinator has taken the value.
\<close>

datatype output_value = Pending string | Sent

text \<open>
  The \<^verbatim>\<open>Reporter\<close> struct. The locks are left out: every operation below is one
  critical section, run without interleaving (the one place where a panic leaves
  \<^verbatim>\<open>stateMu\<close> held is accounted for in \<open>Run\<close>). \<open>logReplacer\<close> holds the pairs
  \<open>(old, new)\<close> the \<^verbatim>\<open>strings.Replacer\<close> was built from; \<open>ctx_cancelled\<close> records
  whether the cancel function \<^verbatim>\<open>r.cancel\<close> has been called. The \<^verbatim>\<open>sync.Map\<close> of
  outputs is an association list with one pair per key, in the order \<^verbatim>\<open>Range\<close>
  visits them.
\<close>

record Reporter =
  ctx_cancelled :: bool
  closed :: bool
  logOffset :: int
  logRows :: "LogRow list"
  logReplacer :: "(string \<times> string) list"
  oldnew :: "string list"
  state :: TaskState
  outputs :: "(string \<times> output_value) list"
  debugOutputEnabled :: bool
  stopCommandEndToken :: string

section \<open>Strings: trimming, the command pattern, redaction, UTF-8\<close>

text \<open>
  Go strings are byte sequences, as \<open>string\<close> is here. The library functions the
  reporter calls on them are written out for the arguments it passes.

  \<^verbatim>\<open>strings.TrimRightFunc(s, func(r rune) bool { return r == '\r' || r == '\n' })\<close>
  removes the trailing carriage returns and line feeds.
\<close>

definition TrimRightFunc :: "string \<Rightarrow> string" where
  "TrimRightFunc s = rev (dropWhile (\<lambda>c. c = CHR 0x0D \<or> c = CHR 0x0A) (rev s))"

text \<open>
  \<^verbatim>\<open>cmdRegex = regexp.MustCompile(`^::([^ :]+)( .*)?::(.*)$`)\<close> and its
  \<^verbatim>\<open>FindStringSubmatch\<close>, which returns the three groups of the leftmost-first match
  or nil. \<open>[^ :]\<close> matches any byte but space and colon (line feed included), \<open>.\<close>
  matches any byte but line feed, \<open>^\<close> and \<open>$\<close> match at the ends of the text only.
  The first group is therefore the longest run after the leading \<open>::\<close>; when a space
  follows it, the greedy second group extends to the last \<open>::\<close> of the text, and
  otherwise the second group is empty and \<open>::\<close> must follow at once.
\<close>

definition cmd_char :: "char \<Rightarrow> bool" where
  "cmd_char c \<longleftrightarrow> c \<noteq> CHR '' '' \<and> c \<noteq> CHR '':''"

fun last_sep :: "string \<Rightarrow> (string \<times> string) option" where
  "last_sep [] = None"
| "last_sep (c # cs) =
     (case last_sep cs of
        Some (p, v) \<Rightarrow> Some (c # p, v)
      | None \<Rightarrow>
          (case cs of
             [] \<Rightarrow> None
           | d # v \<Rightarrow> if c = CHR '':'' \<and> d = CHR '':'' then Some ([], v) else None))"

definition FindStringSubmatch :: "string \<Rightarrow> (string \<times> string \<times> string) option" where
  "FindStringSubmatch content =
     (case content of
        c1 # c2 # s \<Rightarrow>
          if c1 = CHR '':'' \<and> c2 = CHR '':'' then
            (let command = takeWhile cmd_char s; rest = dropWhile cmd_char s in
             if command = [] then None
             else
               (case rest of
                  [] \<Rightarrow> None
                | c # t \<Rightarrow>
                    if c = CHR '' '' then
                      (if CHR 0x0A \<in> set t then None
                       else
                         (case last_sep t of
                            None \<Rightarrow> None
                          | Some (p, v) \<Rightarrow> Some (command, CHR '' '' # p, v)))
                    else
                      (case t of
                         [] \<Rightarrow> None
                       | d # v \<Rightarrow>
                           if d = CHR '':'' \<and> CHR 0x0A \<notin> set v
                           then Some (command, [], v) else None)))
          else None
      | _ \<Rightarrow> None)"

text \<open>
  \<^verbatim>\<open>strings.NewReplacer(oldnew...)\<close> pairs its arguments up and panics on an odd
  number of them.
\<close>

fun NewReplacer :: "string list \<Rightarrow> panic + (string \<times> string) list" where
  "NewReplacer [] = Inr []"
| "NewReplacer [x] = Inl (Panic ''strings.NewReplacer: odd argument count'')"
| "NewReplacer (old # new # rest) =
     (case NewReplacer rest of
        Inl p \<Rightarrow> Inl p
      | Inr ps \<Rightarrow> Inr ((old, new) # ps))"

text \<open>
  \<^verbatim>\<open>Replacer.Replace\<close>: replacements are made in the order they appear in the target
  string, without overlapping matches; at one position the pair that comes first in the
  argument list wins. \<open>lookup\<close> finds that pair among the old strings that are prefixes
  of the rest of the text; an empty old string matches everywhere, but not twice in a row
  at one position (the library's \<^verbatim>\<open>prevMatchEmpty\<close>).
\<close>

fun lookup :: "(string \<times> string) list \<Rightarrow> string \<Rightarrow> bool \<Rightarrow> (string \<times> nat) option" where
  "lookup [] s ignoreRoot = None"
| "lookup ((old, new) # tbl) s ignoreRoot =
     (if prefix old s \<and> \<not> (ignoreRoot \<and> old = []) then Some (new, length old)
      else lookup tbl s ignoreRoot)"

lemma lookup_keylen_le: "lookup tbl s b = Some (val, keylen) \<Longrightarrow> keylen \<le> length s"
  by (induction tbl) (auto split: if_splits simp: prefix_length_le)

lemma lookup_ignoreRoot_pos: "lookup tbl s True = Some (val, keylen) \<Longrightarrow> 0 < keylen"
  by (induction tbl) (auto split: if_splits)

function Replace_from :: "(string \<times> string) list \<Rightarrow> bool \<Rightarrow> string \<Rightarrow> string" where
  "Replace_from tbl prevMatchEmpty s =
     (case lookup tbl s prevMatchEmpty of
        Some (val, keylen) \<Rightarrow>
          if keylen = 0 then val @ Replace_from tbl True s
          else val @ Replace_from tbl False (drop keylen s)
      | None \<Rightarrow>
          (case s of
             [] \<Rightarrow> []
           | c # cs \<Rightarrow> c # Replace_from tbl False cs))"
  by pat_completeness auto
termination
  by (relation "measure (\<lambda>(tbl, prev, s). 2 * length s + (if prev then 0 else 1))")
     (auto dest: lookup_ignoreRoot_pos lookup_keylen_le split: if_splits)

declare Replace_from.simps [simp del]

lemma Replace_from_None:
  "lookup tbl s b = None \<Longrightarrow>
   Replace_from tbl b s = (case s of [] \<Rightarrow> [] | c # cs \<Rightarrow> c # Replace_from tbl False cs)"
  by (subst Replace_from.simps) simp

lemma Replace_from_Some:
  "lookup tbl s b = Some (val, n) \<Longrightarrow>
   Replace_from tbl b s =
     (if n = 0 then val @ Replace_from tbl True s else val @ Replace_from tbl False (drop n s))"
  by (subst Replace_from.simps) simp

definition Replace :: "(string \<times> string) list \<Rightarrow> string \<Rightarrow> string" where
  "Replace tbl s = Replace_from tbl False s"

text \<open>
  \<^verbatim>\<open>utf8.DecodeRuneInString\<close>, its second result: the number of bytes of the first
  rune, 1 for a byte that does not start a well-formed encoding. \<open>first_info\<close> is the
  library's table \<^verbatim>\<open>first\<close> with \<^verbatim>\<open>acceptRanges\<close>: the size of the encoding a
  leading byte announces and the range its second byte must lie in.
\<close>

definition first_info :: "nat \<Rightarrow> (nat \<times> nat \<times> nat) option" where
  "first_info b =
     (if b < 0xC2 then None
      else if b < 0xE0 then Some (2, 0x80, 0xBF)
      else if b = 0xE0 then Some (3, 0xA0, 0xBF)
      else if b < 0xED then Some (3, 0x80, 0xBF)
      else if b = 0xED then Some (3, 0x80, 0x9F)
      else if b < 0xF0 then Some (3, 0x80, 0xBF)
      else if b = 0xF0 then Some (4, 0x90, 0xBF)
      else if b < 0xF4 then Some (4, 0x80, 0xBF)
      else if b = 0xF4 then Some (4, 0x80, 0x8F)
      else None)"

definition continuation :: "char \<Rightarrow> bool" where
  "continuation c \<longleftrightarrow> 0x80 \<le> (of_char c :: nat) \<and> (of_char c :: nat) \<le> 0xBF"

definition DecodeRune_size :: "string \<Rightarrow> nat" where
  "DecodeRune_size s =
     (case s of
        [] \<Rightarrow> 0
      | s0 # t \<Rightarrow>
          if (of_char s0 :: nat) < 0x80 then 1
          else
            (case first_info (of_char s0) of
               None \<Rightarrow> 1
             | Some (sz, lo, hi) \<Rightarrow>
                 if length s < sz then 1
                 else if (of_char (s ! 1) :: nat) < lo \<or> hi < (of_char (s ! 1) :: nat) then 1
                 else if sz \<le> 2 then 2
                 else if \<not> continuation (s ! 2) then 1
                 else if sz \<le> 3 then 3
                 else if \<not> continuation (s ! 3) then 1
                 else 4))"

lemma DecodeRune_size_pos: "s \<noteq> [] \<Longrightarrow> 0 < DecodeRune_size s"
  by (auto simp: DecodeRune_size_def split: list.splits option.splits)

text \<open>
  \<^verbatim>\<open>strings.ToValidUTF8(s, replacement)\<close>: every run of bytes that are not part of a
  well-formed encoding becomes one copy of the replacement. \<open>invalid\<close> is the library's
  flag "the previous byte was from an invalid UTF-8 sequence".
\<close>

function ToValidUTF8_from :: "bool \<Rightarrow> string \<Rightarrow> string \<Rightarrow> string" where
  "ToValidUTF8_from invalid [] replacement = []"
| "ToValidUTF8_from invalid (c # cs) replacement =
     (if (of_char c :: nat) < 0x80 then c # ToValidUTF8_from False cs replacement
      else if DecodeRune_size (c # cs) = 1
      then (if invalid then [] else replacement) @ ToValidUTF8_from True cs replacement
      else take (DecodeRune_size (c # cs)) (c # cs)
             @ ToValidUTF8_from False (drop (DecodeRune_size (c # cs)) (c # cs)) replacement)"
  by pat_completeness auto
termination
proof (relation "measure (\<lambda>(invalid, s, replacement). length s)", goal_cases)
  case 1
  show ?case by simp
next
  case 2
  then show ?case by simp
next
  case 3
  then show ?case by simp
next
  case (4 invalid c cs replacement)
  have "0 < DecodeRune_size (c # cs)" by (rule DecodeRune_size_pos) simp
  then show ?case by simp
qed

definition ToValidUTF8 :: "string \<Rightarrow> string \<Rightarrow> string" where
  "ToValidUTF8 s replacement = ToValidUTF8_from False s replacement"

section \<open>Log entries and in-band commands\<close>

text \<open>
  A logrus entry: message, time and the data map. A data value is a string, an int, a
  bool, a value with a \<^verbatim>\<open>String()\<close> method (\<^verbatim>\<open>fmt.Stringer\<close>), or anything else.
\<close>

datatype data_value = DString string | DInt int | DBool bool | DStringer string | DOther

record Entry =
  Message :: string
  EntryTime :: timestamp
  Data :: "string \<rightharpoonup> data_value"

definition stringToResult :: "string \<rightharpoonup> Result" where
  "stringToResult =
     [''success'' \<mapsto> RESULT_SUCCESS,
      ''failure'' \<mapsto> RESULT_FAILURE,
      ''skipped'' \<mapsto> RESULT_SKIPPED,
      ''cancelled'' \<mapsto> RESULT_CANCELLED]"

text \<open>\<^verbatim>\<open>parseResult\<close>: \<open>Some ret\<close> stands for \<^verbatim>\<open>(ret, true)\<close>.\<close>

definition parseResult :: "data_value \<Rightarrow> Result option" where
  "parseResult result =
     (let str = (case result of DString v \<Rightarrow> v | DStringer v \<Rightarrow> v | _ \<Rightarrow> '''')
      in stringToResult str)"

definition addMask :: "string \<Rightarrow> Reporter \<Rightarrow> panic + Reporter" where
  "addMask msg r =
     (let oldnew' = oldnew r @ [msg, ''***''] in
      case NewReplacer oldnew' of
        Inl p \<Rightarrow> Inl p
      | Inr replacer \<Rightarrow> Inr (r\<lparr>oldnew := oldnew', logReplacer := replacer\<rparr>))"

text \<open>
  \<^verbatim>\<open>handleCommand\<close>, lines 370-409: the guard on the stop token, then the switch, whose
  cases are tried from top to bottom. The result \<open>None\<close> is the nil pointer (no row).
\<close>

definition handleCommand ::
  "string \<Rightarrow> string \<Rightarrow> string \<Rightarrow> string \<Rightarrow> Reporter \<Rightarrow> panic + (string option \<times> Reporter)" where
  "handleCommand originalContent command parameters val r =
     (if stopCommandEndToken r \<noteq> '''' \<and> command \<noteq> stopCommandEndToken r
      then Inr (Some originalContent, r)
      else if command = ''add-mask'' then
        (case addMask val r of Inl p \<Rightarrow> Inl p | Inr r' \<Rightarrow> Inr (None, r'))
      else if command = ''debug'' then
        (if debugOutputEnabled r then Inr (Some val, r) else Inr (None, r))
      else if command = ''notice'' then Inr (Some originalContent, r)
      else if command = ''warning'' then Inr (Some originalContent, r)
      else if command = ''error'' then Inr (Some originalContent, r)
      else if command = ''group'' then Inr (Some originalContent, r)
      else if command = ''endgroup'' then Inr (Some originalContent, r)
      else if command = ''stop-commands'' then Inr (None, r\<lparr>stopCommandEndToken := val\<rparr>)
      else if command = stopCommandEndToken r then Inr (None, r\<lparr>stopCommandEndToken := ''''\<rparr>)
      else Inr (Some originalContent, r))"

text \<open>\<^verbatim>\<open>parseLogRow\<close>, lines 411-429. \<open>None\<close> is the nil row.\<close>

definition parseLogRow :: "Entry \<Rightarrow> Reporter \<Rightarrow> panic + (LogRow option \<times> Reporter)" where
  "parseLogRow entry r =
     (let content = TrimRightFunc (Message entry) in
      case FindStringSubmatch content of
        None \<Rightarrow>
          Inr (Some \<lparr>Time = EntryTime entry,
                     Content = ToValidUTF8 (Replace (logReplacer r) content) ''?''\<rparr>, r)
      | Some (command, parameters, val) \<Rightarrow>
          (case handleCommand content command parameters val r of
             Inl p \<Rightarrow> Inl p
           | Inr (None, r') \<Rightarrow> Inr (None, r')
           | Inr (Some out, r') \<Rightarrow>
               Inr (Some \<lparr>Time = EntryTime entry,
                          Content = ToValidUTF8 (Replace (logReplacer r') out) ''?''\<rparr>, r')))"

section \<open>Task state, steps and the log buffer\<close>

definition duringSteps :: "Reporter \<Rightarrow> bool" where
  "duringSteps r =
     (let steps = Steps (state r) in
      if steps = [] then False
      else if stepResult (hd steps) = RESULT_UNSPECIFIED \<and> LogLength (hd steps) = 0 then False
      else if stepResult (last steps) \<noteq> RESULT_UNSPECIFIED then False
      else True)"

definition ResetSteps :: "int \<Rightarrow> Reporter \<Rightarrow> Reporter" where
  "ResetSteps l r =
     r\<lparr>state := (state r)\<lparr>Steps := Steps (state r) @
        map (\<lambda>i. \<lparr>stepId = int i, stepResult = RESULT_UNSPECIFIED, stepStartedAt = None,
                   stepStoppedAt = None, LogIndex = 0, LogLength = 0\<rparr>) [0..<nat l]\<rparr>\<rparr>"

definition appendIfNotNil :: "'a list \<Rightarrow> 'a option \<Rightarrow> 'a list" where
  "appendIfNotNil s v = (case v of Some x \<Rightarrow> s @ [x] | None \<Rightarrow> s)"

text \<open>
  \<^verbatim>\<open>logf\<close>: \<open>now\<close> is the reading of \<^verbatim>\<open>timestamppb.Now()\<close>, \<open>content\<close> the string
  \<^verbatim>\<open>fmt.Sprintf\<close> has formatted.
\<close>

definition logf :: "timestamp \<Rightarrow> string \<Rightarrow> Reporter \<Rightarrow> Reporter" where
  "logf now content r =
     (if \<not> duringSteps r then r\<lparr>logRows := logRows r @ [\<lparr>Time = now, Content = content\<rparr>]\<rparr>
      else r)"


section \<open>Log flush\<close>


text \<open>
  \<^verbatim>\<open>ReportLog\<close>, lines 257-290. The reply of \<^verbatim>\<open>client.UpdateLog\<close> is a parameter:
  \<open>Inl err\<close> for a transport error, \<open>Inr ack\<close> for a response with that
  \<^verbatim>\<open>AckIndex\<close>. The snapshot \<open>rows\<close> is taken first; the slice expression
  \<^verbatim>\<open>r.logRows[ack-r.logOffset:]\<close> panics when its lower bound exceeds the length;
  the last test reads \<open>logOffset\<close> after the assignment \<^verbatim>\<open>r.logOffset = ack\<close>,
  as the source does.
\<close>

definition ReportLog ::
  "bool \<Rightarrow> error + int \<Rightarrow> Reporter \<Rightarrow> panic + (error option \<times> Reporter)" where
  "ReportLog noMore resp r =
     (let rows = logRows r in
      case resp of
        Inl err \<Rightarrow> Inr (Some err, r)
      | Inr ack \<Rightarrow>
          if ack < logOffset r then Inr (Some (Errorf ''submitted logs are lost''), r)
          else if int (length (logRows r)) < ack - logOffset r
          then Inl (Panic ''slice bounds out of range'')
          else
            let r' = r\<lparr>logRows := drop (nat (ack - logOffset r)) (logRows r),
                       logOffset := ack\<rparr>
            in if noMore \<and> ack < logOffset r' + int (length rows)
               then Inr (Some (Errorf ''not all logs are submitted''), r')
               else Inr (None, r'))"

text \<open>A reporter as the tests build it: every field at its zero value.\<close>

definition zero_Reporter :: Reporter where
  "zero_Reporter =
     \<lparr>ctx_cancelled = False, closed = False, logOffset = 0, logRows = [],
      logReplacer = [], oldnew = [],
      state = \<lparr>Id = 0, Result = RESULT_UNSPECIFIED, StartedAt = None, StoppedAt = None,
               Steps = []\<rparr>,
      outputs = [], debugOutputEnabled = False, stopCommandEndToken = ''''\<rparr>"

section \<open>The log hook\<close>

text \<open>
  The statement that occurs three times in \<^verbatim>\<open>Fire\<close>:
  \<^verbatim>\<open>if !r.duringSteps() { r.logRows = appendIfNotNil(r.logRows, r.parseLogRow(entry)) }\<close>.
\<close>

definition log_unless_duringSteps :: "Entry \<Rightarrow> Reporter \<Rightarrow> panic + Reporter" where
  "log_unless_duringSteps entry r =
     (if \<not> duringSteps r then
        (case parseLogRow entry r of
           Inl p \<Rightarrow> Inl p
         | Inr (row, r') \<Rightarrow> Inr (r'\<lparr>logRows := appendIfNotNil (logRows r') row\<rparr>))
      else Inr r)"

text \<open>
  \<^verbatim>\<open>step\<close> in \<^verbatim>\<open>Fire\<close> is a pointer into \<^verbatim>\<open>r.state.Steps\<close>; reading and writing
  through it are \<open>getStep\<close> and \<open>setStep\<close> at its index.
\<close>

definition getStep :: "nat \<Rightarrow> Reporter \<Rightarrow> StepState" where
  "getStep i r = Steps (state r) ! i"

definition setStep :: "nat \<Rightarrow> (StepState \<Rightarrow> StepState) \<Rightarrow> Reporter \<Rightarrow> Reporter" where
  "setStep i f r = r\<lparr>state := (state r)\<lparr>Steps := (Steps (state r))[i := f (Steps (state r) ! i)]\<rparr>\<rparr>"

text \<open>
  Lines 130-135: the step the entry addresses. \<open>Inr None\<close> is the nil pointer. A negative
  \<^verbatim>\<open>stepNumber\<close> passes the test \<^verbatim>\<open>len(r.state.Steps) > v\<close> and the index expression
  panics.
\<close>

definition stepOf :: "Entry \<Rightarrow> Reporter \<Rightarrow> panic + nat option" where
  "stepOf entry r =
     (case Data entry ''stepNumber'' of
        Some (DInt v) \<Rightarrow>
          if v < int (length (Steps (state r))) then
            (if v < 0 then Inl (Panic ''index out of range'') else Inr (Some (nat v)))
          else Inr None
      | _ \<Rightarrow> Inr None)"

text \<open>\<^verbatim>\<open>Fire\<close>, lines 96-170. It returns a nil error on every path.\<close>

definition Fire :: "Entry \<Rightarrow> Reporter \<Rightarrow> panic + Reporter" where
  "Fire entry r =
     (let timestamp = EntryTime entry;
          r1 = (if StartedAt (state r) = None
                then r\<lparr>state := (state r)\<lparr>StartedAt := Some timestamp\<rparr>\<rparr> else r)
      in
      if Data entry ''stage'' \<noteq> Some (DString ''Main'') then
        (let r2 =
           (case Data entry ''jobResult'' of
              None \<Rightarrow> r1
            | Some v \<Rightarrow>
                (case parseResult v of
                   None \<Rightarrow> r1
                 | Some jobResult \<Rightarrow>
                     r1\<lparr>state := (state r1)
                       \<lparr>Result := jobResult,
                        StoppedAt := Some timestamp,
                        Steps := map (\<lambda>s. if stepResult s = RESULT_UNSPECIFIED
                                          then s\<lparr>stepResult :=
                                                 (if jobResult = RESULT_SKIPPED
                                                  then RESULT_SKIPPED else RESULT_CANCELLED)\<rparr>
                                          else s)
                                    (Steps (state r1))\<rparr>\<rparr>))
         in log_unless_duringSteps entry r2)
      else
        (case stepOf entry r1 of
           Inl p \<Rightarrow> Inl p
         | Inr None \<Rightarrow> log_unless_duringSteps entry r1
         | Inr (Some i) \<Rightarrow>
             (let r2 = (if stepStartedAt (getStep i r1) = None
                        then setStep i (\<lambda>s. s\<lparr>stepStartedAt := Some timestamp\<rparr>) r1 else r1);
                  logged =
                    (case Data entry ''raw_output'' of
                       Some v \<Rightarrow>
                         if v = DBool True then
                           (case parseLogRow entry r2 of
                              Inl p \<Rightarrow> Inl p
                            | Inr (None, r3) \<Rightarrow> Inr r3
                            | Inr (Some row, r3) \<Rightarrow>
                                (let r4 = (if LogLength (getStep i r3) = 0
                                           then setStep i (\<lambda>s. s\<lparr>LogIndex :=
                                                  logOffset r3 + int (length (logRows r3))\<rparr>) r3
                                           else r3);
                                     r5 = setStep i (\<lambda>s. s\<lparr>LogLength := LogLength s + 1\<rparr>) r4
                                 in Inr (r5\<lparr>logRows := logRows r5 @ [row]\<rparr>)))
                         else Inr r2
                     | None \<Rightarrow> log_unless_duringSteps entry r2)
              in
              case logged of
                Inl p \<Rightarrow> Inl p
              | Inr r6 \<Rightarrow>
                  (case Data entry ''stepResult'' of
                     None \<Rightarrow> Inr r6
                   | Some v \<Rightarrow>
                       (case parseResult v of
                          None \<Rightarrow> Inr r6
                        | Some res \<Rightarrow>
                            (let r7 = (if LogLength (getStep i r6) = 0
                                       then setStep i (\<lambda>s. s\<lparr>LogIndex :=
                                              logOffset r6 + int (length (logRows r6))\<rparr>) r6
                                       else r6)
                             in Inr (setStep i (\<lambda>s. s\<lparr>stepResult := res,
                                                        stepStoppedAt := Some timestamp\<rparr>) r7)))))))"

section \<open>Outputs\<close>

text \<open>
  \<^verbatim>\<open>SetOutputs\<close>, lines 202-220. The argument map is the list of its pairs in the
  order the \<^verbatim>\<open>range\<close> loop visits them (one pair per key). \<open>quote\<close> and \<open>itoa\<close> are the
  formats \<^verbatim>\<open>%q\<close> and \<^verbatim>\<open>%d\<close>; \<open>now k\<close> is the clock reading when the loop is at key
  \<open>k\<close>. The call of \<^verbatim>\<open>log.Println\<close> writes to the process log only and is left out.
\<close>

fun SetOutputs ::
  "(string \<Rightarrow> string) \<Rightarrow> (nat \<Rightarrow> string) \<Rightarrow> (string \<Rightarrow> timestamp) \<Rightarrow>
   (string \<times> string) list \<Rightarrow> Reporter \<Rightarrow> Reporter" where
  "SetOutputs quote itoa now [] r = r"
| "SetOutputs quote itoa now ((k, v) # kvs) r =
     (if 255 < length k then
        SetOutputs quote itoa now kvs
          (logf (now k) (''ignore output because the key is too long: '' @ quote k) r)
      else
        (let r1 = (if 1024 * 1024 < length v
                   then logf (now k) (''ignore output because the value '' @ quote k
                                       @ '' is too long: '' @ itoa (length v)) r
                   else r)
         in case map_of (outputs r1) k of
              Some x \<Rightarrow> SetOutputs quote itoa now kvs r1
            | None \<Rightarrow> SetOutputs quote itoa now kvs (r1\<lparr>outputs := outputs r1 @ [(k, Pending v)]\<rparr>)))"

section \<open>State flush and close\<close>

text \<open>
  The reply of \<^verbatim>\<open>client.UpdateTask\<close>: the state it may carry and the keys of the
  outputs the coordinator has taken.
\<close>

record UpdateTaskResponse =
  RespState :: "TaskState option"
  SentOutputs :: "string list"

text \<open>\<^verbatim>\<open>sync.Map.Store\<close> on the association list.\<close>

fun Store :: "string \<Rightarrow> output_value \<Rightarrow> (string \<times> output_value) list \<Rightarrow> (string \<times> output_value) list" where
  "Store k v [] = [(k, v)]"
| "Store k v ((k', v') # m) = (if k' = k then (k, v) # m else (k', v') # Store k v m)"

text \<open>The format \<^verbatim>\<open>%v\<close> of a slice of strings.\<close>

fun join_space :: "string list \<Rightarrow> string" where
  "join_space [] = []"
| "join_space [x] = x"
| "join_space (x # y # ys) = x @ '' '' @ join_space (y # ys)"

text \<open>\<^verbatim>\<open>ReportState\<close>, lines 292-336.\<close>

definition ReportState :: "error + UpdateTaskResponse \<Rightarrow> Reporter \<Rightarrow> error option \<times> Reporter" where
  "ReportState resp r =
     (case resp of
        Inl err \<Rightarrow> (Some err, r)
      | Inr msg \<Rightarrow>
          (let r1 = r\<lparr>outputs := foldl (\<lambda>m k. Store k Sent m) (outputs r) (SentOutputs msg)\<rparr>;
               r2 = (case RespState msg of
                       Some st \<Rightarrow> if Result st = RESULT_CANCELLED
                                  then r1\<lparr>ctx_cancelled := True\<rparr> else r1
                     | None \<Rightarrow> r1);
               noSent = map fst (filter (\<lambda>(k, v). v \<noteq> Sent) (outputs r2))
           in if noSent \<noteq> []
              then (Some (Errorf (''there are still outputs that have not been sent: [''
                                  @ join_space noSent @ '']'')), r2)
              else (None, r2)))"

text \<open>
  \<^verbatim>\<open>Close\<close>, lines 222-255. First the part under the state lock (lines 223-247);
  \<open>now_row\<close> and \<open>now_stop\<close> are the two readings of \<^verbatim>\<open>timestamppb.Now()\<close>.
\<close>

definition Close_locked :: "timestamp \<Rightarrow> timestamp \<Rightarrow> string \<Rightarrow> Reporter \<Rightarrow> Reporter" where
  "Close_locked now_row now_stop lastWords r =
     (let r0 = r\<lparr>closed := True\<rparr> in
      if Result (state r0) = RESULT_UNSPECIFIED then
        (let lastWords' = (if lastWords = '''' then ''Early termination'' else lastWords);
             steps' = map (\<lambda>v. if stepResult v = RESULT_UNSPECIFIED
                                then v\<lparr>stepResult := RESULT_CANCELLED\<rparr> else v)
                          (Steps (state r0));
             r1 = r0\<lparr>state := (state r0)\<lparr>Steps := steps', Result := RESULT_FAILURE\<rparr>\<rparr>;
             r2 = r1\<lparr>logRows := logRows r1 @ [\<lparr>Time = now_row, Content = lastWords'\<rparr>]\<rparr>
         in r2\<lparr>state := (state r2)\<lparr>StoppedAt := Some now_stop\<rparr>\<rparr>)
      else if lastWords \<noteq> '''' then
        r0\<lparr>logRows := logRows r0 @ [\<lparr>Time = now_row, Content = lastWords\<rparr>]\<rparr>
      else r0)"

text \<open>
  Then \<^verbatim>\<open>retry.Do\<close> around the final log flush and the state flush (lines 249-254),
  with the option \<^verbatim>\<open>retry.Context(r.ctx)\<close> and the library's budget of ten attempts.
  \<open>Close_attempt\<close> is the function that is retried. The argument \<open>replies\<close> is the list
  of the coordinator's replies, one pair per attempt that can be made before the context
  ends from outside (by its deadline or by the caller). The retry returns nil at the first
  attempt that returns nil. It returns the context's error at once when the context has
  ended before the first attempt. After a failed attempt it gives up when that was the
  tenth, and returns the errors of all attempts; and it gives up when the context has
  ended, and returns these errors followed by the context's error.
\<close>

definition context_Canceled :: error where
  "context_Canceled = Errorf ''context canceled''"

definition Close_attempt ::
  "error + int \<Rightarrow> error + UpdateTaskResponse \<Rightarrow> Reporter \<Rightarrow> panic + (error option \<times> Reporter)" where
  "Close_attempt log_reply task_reply r =
     (case ReportLog True log_reply r of
        Inl p \<Rightarrow> Inl p
      | Inr (Some err, r') \<Rightarrow> Inr (Some err, r')
      | Inr (None, r') \<Rightarrow> Inr (ReportState task_reply r'))"

fun retry_Do ::
  "((error + int) \<times> (error + UpdateTaskResponse)) list \<Rightarrow> nat \<Rightarrow> error list \<Rightarrow> Reporter \<Rightarrow>
   panic + (error option \<times> Reporter)" where
  "retry_Do [] n errorLog r = Inr (Some (retry_Error (errorLog @ [context_Canceled])), r)"
| "retry_Do ((log_reply, task_reply) # replies) n errorLog r =
     (case Close_attempt log_reply task_reply r of
        Inl p \<Rightarrow> Inl p
      | Inr (None, r') \<Rightarrow> Inr (None, r')
      | Inr (Some err, r') \<Rightarrow>
          (if n = 9 then Inr (Some (retry_Error (errorLog @ [err])), r')
           else if ctx_cancelled r'
           then Inr (Some (retry_Error (errorLog @ [err, context_Canceled])), r')
           else retry_Do replies (Suc n) (errorLog @ [err]) r'))"

definition Close ::
  "timestamp \<Rightarrow> timestamp \<Rightarrow> ((error + int) \<times> (error + UpdateTaskResponse)) list \<Rightarrow>
   string \<Rightarrow> Reporter \<Rightarrow> panic + (error option \<times> Reporter)" where
  "Close now_row now_stop replies lastWords r =
     (let r' = Close_locked now_row now_stop lastWords r in
      if ctx_cancelled r' \<or> replies = [] then Inr (Some context_Canceled, r')
      else retry_Do replies 0 [] r')"


text \<open>
  \<^verbatim>\<open>RunDaemon\<close>, lines 172-184: one tick with the coordinator's two replies. The errors
  of both flushes are dropped; the timer that schedules the next tick is not modelled.
\<close>

definition RunDaemon ::
  "error + int \<Rightarrow> error + UpdateTaskResponse \<Rightarrow> Reporter \<Rightarrow> panic + Reporter" where
  "RunDaemon log_reply task_reply r =
     (if closed r then Inr r
      else if ctx_cancelled r then Inr r
      else
        (case ReportLog False log_reply r of
           Inl p \<Rightarrow> Inl p
         | Inr (err, r') \<Rightarrow> Inr (snd (ReportState task_reply r'))))"

section \<open>Construction\<close>

text \<open>
  The fields of \<^verbatim>\<open>runnerv1.Task\<close> that the reporter and the runner read. \<open>Context\<close> is
  the pointer to the \<^verbatim>\<open>structpb.Struct\<close> (\<open>None\<close> when nil) with its \<^verbatim>\<open>Fields\<close> map;
  \<open>Secrets\<close> is the map of secrets as the list of its pairs in the order a
  \<^verbatim>\<open>range\<close> loop visits them (one pair per name).
\<close>

datatype pb_value = StringValue string | OtherValue

record Task =
  TaskId :: int
  Context :: "(string \<rightharpoonup> pb_value) option"
  Secrets :: "(string \<times> string) list"

text \<open>\<^verbatim>\<open>GetStringValue\<close> on a possibly nil \<^verbatim>\<open>*structpb.Value\<close>.\<close>

definition GetStringValue :: "pb_value option \<Rightarrow> string" where
  "GetStringValue v = (case v of Some (StringValue s) \<Rightarrow> s | _ \<Rightarrow> '''')"

text \<open>
  \<^verbatim>\<open>NewReporter\<close>, lines 45-73. Reading \<^verbatim>\<open>task.Context.Fields\<close> through a nil
  \<^verbatim>\<open>Context\<close> panics. The two tokens are added when non-empty; the loop over the
  secrets adds every value.
\<close>

definition NewReporter :: "Task \<Rightarrow> panic + Reporter" where
  "NewReporter task =
     (case Context task of
        None \<Rightarrow> Inl (Panic ''nil pointer dereference'')
      | Some flds \<Rightarrow>
          (let oldnew0 = (let v = GetStringValue (flds ''token'')
                          in if v \<noteq> '''' then [v, ''***''] else []);
               oldnew1 = oldnew0 @ (let v = GetStringValue (flds ''gitea_runtime_token'')
                                    in if v \<noteq> '''' then [v, ''***''] else []);
               oldnew2 = oldnew1 @ concat (map (\<lambda>(k, v). [v, ''***'']) (Secrets task))
           in case NewReplacer oldnew2 of
                Inl p \<Rightarrow> Inl p
              | Inr replacer \<Rightarrow>
                  Inr \<lparr>ctx_cancelled = False, closed = False, logOffset = 0, logRows = [],
                       logReplacer = replacer, oldnew = oldnew2,
                       state = \<lparr>Id = TaskId task, Result = RESULT_UNSPECIFIED,
                                StartedAt = None, StoppedAt = None, Steps = []\<rparr>,
                       outputs = [],
                       debugOutputEnabled =
                         (map_of (Secrets task) ''ACTIONS_STEP_DEBUG'' = Some ''true''),
                       stopCommandEndToken = ''''\<rparr>))"

section \<open>The runner (internal/app/run/runner.go)\<close>

text \<open>The set of live task ids, \<^verbatim>\<open>runningTasks\<close>.\<close>

record Runner =
  runningTasks :: "int set"

text \<open>
  The body of \<^verbatim>\<open>run\<close> (workflow parsing, planning, the executor with the reporter as
  its log hook, \<^verbatim>\<open>SetOutputs\<close>) is the work of collaborators; it is a parameter that
  takes the reporter and either returns an error value or panics, leaving the reporter in
  some state. \<^verbatim>\<open>run\<close> itself, lines 116-121, turns a panic into an error.
\<close>

datatype run_outcome = Returned "error option" Reporter | Panicked string Reporter

definition run :: "(Reporter \<Rightarrow> run_outcome) \<Rightarrow> Reporter \<Rightarrow> error option \<times> Reporter" where
  "run body reporter =
     (case body reporter of
        Returned err reporter' \<Rightarrow> (err, reporter')
      | Panicked v reporter' \<Rightarrow> (Some (Errorf (''panic: '' @ v)), reporter'))"

text \<open>
  The method \<^verbatim>\<open>Error()\<close> of an error value. For the list of a failed retry it is the
  library's text, one numbered line per error; \<open>Itoa\<close> is \<^verbatim>\<open>%d\<close> on a natural number.
\<close>

function Itoa :: "nat \<Rightarrow> string" where
  "Itoa n = (if n < 10 then [char_of (48 + n)] else Itoa (n div 10) @ [char_of (48 + n mod 10)])"
  by pat_completeness auto
termination
  by (relation "measure id") auto

fun join_lines :: "string list \<Rightarrow> string" where
  "join_lines [] = []"
| "join_lines [x] = x"
| "join_lines (x # y # ys) = x @ [CHR 0x0A] @ join_lines (y # ys)"

fun Error :: "error \<Rightarrow> string"
  and logWithNumber :: "nat \<Rightarrow> error list \<Rightarrow> string list" where
  "Error (Errorf m) = m"
| "Error (retry_Error es) = ''All attempts fail:'' @ [CHR 0x0A] @ join_lines (logWithNumber 1 es)"
| "logWithNumber i [] = []"
| "logWithNumber i (e # es) = (''#'' @ Itoa i @ '': '' @ Error e) # logWithNumber (Suc i) es"

text \<open>What the coordinator and the clock supply during one call of \<^verbatim>\<open>Run\<close>.\<close>

record Run_env =
  daemon_log_reply :: "error + int"
  daemon_task_reply :: "error + UpdateTaskResponse"
  close_replies :: "((error + int) \<times> (error + UpdateTaskResponse)) list"
  close_now_row :: timestamp
  close_now_stop :: timestamp

text \<open>
  How a call ends: it returns (an error value or nil), it leaves by a panic, or it never
  returns.
\<close>

datatype call_result = Returns "error option" | Panics panic | Blocks

text \<open>
  \<^verbatim>\<open>Runner.Run\<close>, lines 92-114. The result is how the call ends, the runner afterwards,
  and the reporter after the deferred \<^verbatim>\<open>Close\<close> when the call returns. \<open>itoa\<close> is the
  format \<^verbatim>\<open>%d\<close>. The deferred calls run in reverse order: \<^verbatim>\<open>Close\<close>, \<^verbatim>\<open>cancel\<close>,
  \<^verbatim>\<open>Delete\<close>.

  A panic of \<^verbatim>\<open>NewReporter\<close> comes before \<^verbatim>\<open>Close\<close> is deferred: the id is deleted and
  the panic leaves the call. A panic of the first heartbeat comes from the slice
  expression of \<^verbatim>\<open>ReportLog\<close> (line 281), which stands between \<^verbatim>\<open>stateMu.Lock()\<close> and
  \<^verbatim>\<open>stateMu.Unlock()\<close> with no deferred unlock: the lock is still held when the panic
  unwinds into the deferred \<^verbatim>\<open>Close\<close>, whose \<^verbatim>\<open>stateMu.Lock()\<close> (line 225) then never
  returns. The call blocks there, \<^verbatim>\<open>Delete\<close> is not reached and the id stays in the
  set. A panic inside the deferred \<^verbatim>\<open>Close\<close> (again line 281, now after \<^verbatim>\<open>Close\<close> has
  released the lock it took) leaves the call after \<^verbatim>\<open>Delete\<close>. The later heartbeats run
  on timers of their own and are no part of the call.
\<close>

definition Run ::
  "(int \<Rightarrow> string) \<Rightarrow> Run_env \<Rightarrow> (Reporter \<Rightarrow> run_outcome) \<Rightarrow> Task \<Rightarrow> Runner \<Rightarrow>
   call_result \<times> Runner \<times> Reporter option" where
  "Run itoa env body task rn =
     (if TaskId task \<in> runningTasks rn
      then (Returns (Some (Errorf (''task '' @ itoa (TaskId task) @ '' is already running''))),
            rn, None)
      else
        (let rn1 = rn\<lparr>runningTasks := insert (TaskId task) (runningTasks rn)\<rparr>;
             rn2 = rn1\<lparr>runningTasks := runningTasks rn1 - {TaskId task}\<rparr>
         in case NewReporter task of
              Inl p \<Rightarrow> (Panics p, rn2, None)
            | Inr reporter \<Rightarrow>
                (case RunDaemon (daemon_log_reply env) (daemon_task_reply env) reporter of
                   Inl p \<Rightarrow> (Blocks, rn1, None)
                 | Inr reporter1 \<Rightarrow>
                     (let (runErr, reporter2) = run body reporter1;
                          lastWords = (case runErr of None \<Rightarrow> '''' | Some e \<Rightarrow> Error e)
                      in case Close (close_now_row env) (close_now_stop env) (close_replies env)
                                    lastWords reporter2 of
                           Inl p \<Rightarrow> (Panics p, rn2, None)
                         | Inr (err, reporter3) \<Rightarrow> (Returns None, rn2, Some reporter3)))))"


section \<open>The poller's shutdown (internal/app/poll/poller.go)\<close>

text \<open>
  The state \<^verbatim>\<open>Shutdown\<close> reads and writes: whether \<^verbatim>\<open>shutdownPolling\<close> and
  \<^verbatim>\<open>shutdownJobs\<close> have been called, whether the channel \<^verbatim>\<open>done\<close> is closed, and
  whether the context passed to \<^verbatim>\<open>Shutdown\<close> is done (its timeout has fired). The
  channel \<^verbatim>\<open>done\<close> is the values sent on it and not yet received, and whether it is
  closed; nothing in the program sends on it, and \<^verbatim>\<open>Poll\<close> closes it once all workers
  have returned.

  \<open>pc\<close> is the place \<^verbatim>\<open>Shutdown\<close> has reached: before its first statement, at the
  \<^verbatim>\<open>select\<close> (line 76), at the receive \<^verbatim>\<open>_, ok := <-p.done\<close> (line 87), before
  \<^verbatim>\<open>p.shutdownJobs()\<close> (line 93), at the last receive (line 96), or returned.
\<close>

datatype place = AtStart | AtSelect | AtReceive | AtShutdownJobs | AtLastReceive
  | Returned_nil | Returned_ctx_Err

record Poller =
  pc :: place
  polling_cancelled :: bool
  jobs_cancelled :: bool
  done_sent :: "unit list"
  done_closed :: bool
  ctx_done :: bool

text \<open>
  A receive \<^verbatim>\<open>_, ok := <-p.done\<close>: a value that was sent (\<^verbatim>\<open>ok == true\<close>), else the
  zero value of a closed channel (\<^verbatim>\<open>ok == false\<close>), else it blocks (\<open>None\<close>).
\<close>

definition receive_done :: "Poller \<Rightarrow> (bool \<times> Poller) option" where
  "receive_done p =
     (case done_sent p of
        x # rest \<Rightarrow> Some (True, p\<lparr>done_sent := rest\<rparr>)
      | [] \<Rightarrow> if done_closed p then Some (False, p) else None)"

text \<open>
  What can happen next: the timeout fires, \<^verbatim>\<open>Poll\<close> closes \<^verbatim>\<open>done\<close>, or the goroutine
  in \<^verbatim>\<open>Shutdown\<close> runs one statement (staying where it is when the statement blocks).
  \<open>Sched pick_ctx\<close> carries the choice the \<^verbatim>\<open>select\<close> makes when both of its cases
  are ready.
\<close>

datatype event = Timeout | Drained | Sched bool

fun Shutdown_step :: "event \<Rightarrow> Poller \<Rightarrow> Poller" where
  "Shutdown_step Timeout p = p\<lparr>ctx_done := True\<rparr>"
| "Shutdown_step Drained p = p\<lparr>done_closed := True\<rparr>"
| "Shutdown_step (Sched pick_ctx) p =
     (case pc p of
        AtStart \<Rightarrow> p\<lparr>polling_cancelled := True, pc := AtSelect\<rparr>
      | AtSelect \<Rightarrow>
          (case receive_done p of
             Some (ok, p') \<Rightarrow>
               if ctx_done p \<and> pick_ctx then p\<lparr>pc := AtReceive\<rparr> else p'\<lparr>pc := Returned_nil\<rparr>
           | None \<Rightarrow> if ctx_done p then p\<lparr>pc := AtReceive\<rparr> else p)
      | AtReceive \<Rightarrow>
          (case receive_done p of
             Some (ok, p') \<Rightarrow>
               if \<not> ok then p'\<lparr>pc := Returned_nil\<rparr> else p'\<lparr>pc := AtShutdownJobs\<rparr>
           | None \<Rightarrow> p)
      | AtShutdownJobs \<Rightarrow> p\<lparr>jobs_cancelled := True, pc := AtLastReceive\<rparr>
      | AtLastReceive \<Rightarrow>
          (case receive_done p of
             Some (ok, p') \<Rightarrow> p'\<lparr>pc := Returned_ctx_Err\<rparr>
           | None \<Rightarrow> p)
      | Returned_nil \<Rightarrow> p
      | Returned_ctx_Err \<Rightarrow> p)"

fun Shutdown_run :: "event list \<Rightarrow> Poller \<Rightarrow> Poller" where
  "Shutdown_run [] p = p"
| "Shutdown_run (e # es) p = Shutdown_run es (Shutdown_step e p)"

text \<open>A poller as \<^verbatim>\<open>New\<close> makes it, with a call of \<^verbatim>\<open>Shutdown\<close> about to start.\<close>

definition New :: Poller where
  "New = \<lparr>pc = AtStart, polling_cancelled = False, jobs_cancelled = False,
          done_sent = [], done_closed = False, ctx_done = False\<rparr>"


section \<open>Example states\<close>

text \<open>A reporter with a finished first step and a running second step.\<close>

definition two_steps :: Reporter where
  "two_steps =
     zero_Reporter\<lparr>state := (state zero_Reporter)\<lparr>Steps :=
       [\<lparr>stepId = 0, stepResult = RESULT_SUCCESS, stepStartedAt = Some 1,
         stepStoppedAt = Some 2, LogIndex = 0, LogLength = 0\<rparr>,
        \<lparr>stepId = 1, stepResult = RESULT_UNSPECIFIED, stepStartedAt = Some 3,
         stepStoppedAt = None, LogIndex = 0, LogLength = 0\<rparr>]\<rparr>\<rparr>"


definition long_key :: string where
  "long_key = replicate 256 (CHR ''k'')"

definition long_value :: string where
  "long_value = replicate (1024 * 1024 + 1) (CHR ''v'')"

text \<open>One round of the loop of \<^verbatim>\<open>SetOutputs\<close>, named for the proofs.\<close>

definition output_step ::
  "(string \<Rightarrow> string) \<Rightarrow> (nat \<Rightarrow> string) \<Rightarrow> (string \<Rightarrow> timestamp) \<Rightarrow>
   string \<Rightarrow> string \<Rightarrow> Reporter \<Rightarrow> Reporter" where
  "output_step quote itoa now k v r = SetOutputs quote itoa now [(k, v)] r"

definition output_rows ::
  "(string \<Rightarrow> string) \<Rightarrow> (nat \<Rightarrow> string) \<Rightarrow> (string \<Rightarrow> timestamp) \<Rightarrow> (string \<times> string) list \<Rightarrow> LogRow list" where
  "output_rows quote itoa now kvs =
     concat (map (\<lambda>(k, v).
       if 255 < length k
       then [\<lparr>Time = now k, Content = ''ignore output because the key is too long: '' @ quote k\<rparr>]
       else if 1024 * 1024 < length v
       then [\<lparr>Time = now k, Content = ''ignore output because the value '' @ quote k
                                       @ '' is too long: '' @ itoa (length v)\<rparr>]
       else []) kvs)"

text \<open>
  The job result an entry makes \<^verbatim>\<open>Fire\<close> write (lines 109-112), and the step result it
  makes \<^verbatim>\<open>Fire\<close> write for the step at index \<open>i\<close> (lines 131-133 and 159-160).
\<close>

definition job_result_of :: "Entry \<Rightarrow> Result option" where
  "job_result_of entry =
     (if Data entry ''stage'' \<noteq> Some (DString ''Main'')
      then (case Data entry ''jobResult'' of Some v \<Rightarrow> parseResult v | None \<Rightarrow> None)
      else None)"

definition step_result_of :: "Entry \<Rightarrow> nat \<Rightarrow> Result option" where
  "step_result_of entry i =
     (if Data entry ''stage'' = Some (DString ''Main'') \<and>
         Data entry ''stepNumber'' = Some (DInt (int i))
      then (case Data entry ''stepResult'' of Some v \<Rightarrow> parseResult v | None \<Rightarrow> None)
      else None)"

text \<open>A sequence of entries delivered to the hook, one after the other.\<close>

fun Fire_all :: "Entry list \<Rightarrow> Reporter \<Rightarrow> panic + Reporter" where
  "Fire_all [] r = Inr r"
| "Fire_all (entry # entries) r =
     (case Fire entry r of Inl p \<Rightarrow> Inl p | Inr r' \<Rightarrow> Fire_all entries r')"

text \<open>Example entries: a job result outside stage Main, and a step result in stage Main.\<close>

definition job_entry :: "timestamp \<Rightarrow> string \<Rightarrow> Entry" where
  "job_entry t res = \<lparr>Message = ''job'', EntryTime = t, Data = [''jobResult'' \<mapsto> DString res]\<rparr>"

definition step_entry :: "timestamp \<Rightarrow> int \<Rightarrow> string \<Rightarrow> Entry" where
  "step_entry t n res =
     \<lparr>Message = ''step'', EntryTime = t,
      Data = [''stage'' \<mapsto> DString ''Main'', ''stepNumber'' \<mapsto> DInt n,
              ''stepResult'' \<mapsto> DStringer res]\<rparr>"




definition fresh_Reporter :: Reporter where
  "fresh_Reporter = zero_Reporter\<lparr>state := (state zero_Reporter)\<lparr>Id := 7\<rparr>\<rparr>"


text \<open>
  The loop of the repository's test of the parser: \<^verbatim>\<open>parseLogRow\<close> on each entry in turn,
  collecting the rows.
\<close>

fun parseLogRows :: "Entry list \<Rightarrow> Reporter \<Rightarrow> panic + (LogRow option list \<times> Reporter)" where
  "parseLogRows [] r = Inr ([], r)"
| "parseLogRows (entry # entries) r =
     (case parseLogRow entry r of
        Inl p \<Rightarrow> Inl p
      | Inr (row, r') \<Rightarrow>
          (case parseLogRows entries r' of
             Inl p \<Rightarrow> Inl p
           | Inr (rows, r'') \<Rightarrow> Inr (row # rows, r'')))"

text \<open>The names the switch of \<^verbatim>\<open>handleCommand\<close> lists before the stop token.\<close>

definition builtin_commands :: "string list" where
  "builtin_commands =
     [''add-mask'', ''debug'', ''notice'', ''warning'', ''error'', ''group'', ''endgroup'',
      ''stop-commands'']"

text \<open>The row of an entry whose content is emitted as it is, after redaction.\<close>

definition plain_row :: "Entry \<Rightarrow> Reporter \<Rightarrow> LogRow" where
  "plain_row entry r =
     \<lparr>Time = EntryTime entry,
      Content = ToValidUTF8 (Replace (logReplacer r) (TrimRightFunc (Message entry))) ''?''\<rparr>"

text \<open>The command name of an entry's line, if it is a command line.\<close>

definition command_of :: "Entry \<Rightarrow> string option" where
  "command_of entry =
     map_option fst (FindStringSubmatch (TrimRightFunc (Message entry)))"

text \<open>An entry with the given message and time and no data.\<close>

definition line :: "timestamp \<Rightarrow> string \<Rightarrow> Entry" where
  "line t m = \<lparr>Message = m, EntryTime = t, Data = Map.empty\<rparr>"


text \<open>Every pair of the table replaces by three asterisks.\<close>

definition all_stars :: "(string \<times> string) list \<Rightarrow> bool" where
  "all_stars tbl \<longleftrightarrow> list_all (\<lambda>(old, new). new = ''***'') tbl"

text \<open>
  The text of an entry that \<^verbatim>\<open>parseLogRow\<close> redacts when it produces a row: the value
  of a \<open>debug\<close> command that is interpreted, and the trimmed line otherwise.
\<close>

definition emitted_text :: "Entry \<Rightarrow> Reporter \<Rightarrow> string" where
  "emitted_text entry r =
     (let content = TrimRightFunc (Message entry) in
      case FindStringSubmatch content of
        None \<Rightarrow> content
      | Some (command, parameters, val) \<Rightarrow>
          if command = ''debug'' \<and>
             \<not> (stopCommandEndToken r \<noteq> '''' \<and> command \<noteq> stopCommandEndToken r)
          then val else content)"

text \<open>
  A string that, read as a log line, \<^verbatim>\<open>handleCommand\<close> neither drops nor unwraps: it is no
  command line, or a scope is active and it is not the resuming command, or its command
  is one the switch passes on as it is.
\<close>

definition passes_through :: "string \<Rightarrow> Reporter \<Rightarrow> bool" where
  "passes_through content r =
     (case FindStringSubmatch content of
        None \<Rightarrow> True
      | Some (command, parameters, val) \<Rightarrow>
          (stopCommandEndToken r \<noteq> '''' \<and> command \<noteq> stopCommandEndToken r) \<or>
          command \<in> set [''notice'', ''warning'', ''error'', ''group'', ''endgroup''] \<or>
          (command \<notin> set builtin_commands \<and> command \<noteq> stopCommandEndToken r))"

text \<open>Reporters whose table holds one mask: an asterisk, and the word "secret".\<close>

definition star_Reporter :: Reporter where
  "star_Reporter = zero_Reporter\<lparr>logReplacer := [(''*'', ''***'')], oldnew := [''*'', ''***'']\<rparr>"

definition secret_Reporter :: Reporter where
  "secret_Reporter =
     zero_Reporter\<lparr>logReplacer := [(''secret'', ''***'')], oldnew := [''secret'', ''***'']\<rparr>"






section \<open>Properties of the log flush\<close>

lemma ReportLog_lost:
  "ack < logOffset r \<Longrightarrow>
   ReportLog noMore (Inr ack) r = Inr (Some (Errorf ''submitted logs are lost''), r)"
  by (simp add: ReportLog_def)

lemma ReportLog_final_short:
  assumes "logOffset r \<le> ack" and "ack < logOffset r + int (length (logRows r))"
  shows "\<exists>r'. ReportLog True (Inr ack) r = Inr (Some (Errorf ''not all logs are submitted''), r')"
  using assms by (auto simp add: ReportLog_def Let_def)

text \<open>
  The final flush returns nil only when the buffer was empty before the call: with rows
  to send, the test \<^verbatim>\<open>ack < r.logOffset+len(rows)\<close> compares \<open>ack\<close> with
  \<open>ack + len(rows)\<close>.
\<close>

lemma ReportLog_final_nil_iff:
  "(\<exists>r'. ReportLog True (Inr ack) r = Inr (None, r')) \<longleftrightarrow>
     logRows r = [] \<and> ack = logOffset r"
  by (auto simp add: ReportLog_def Let_def)

text \<open>
  Claim C1, at the input where the code departs from it: offset 0, one buffered row, a
  final flush, and the coordinator acknowledging index 1 = 0 + 1. The claim has the call
  return nil; the code trims the buffer, advances the offset to 1 and returns the error
  "not all logs are submitted".
\<close>

theorem ReportLog_final_full_ack_fails:
  "ReportLog True (Inr 1) (zero_Reporter\<lparr>logRows := [\<lparr>Time = 0, Content = ''done''\<rparr>]\<rparr>)
     = Inr (Some (Errorf ''not all logs are submitted''),
            zero_Reporter\<lparr>logRows := [], logOffset := 1\<rparr>)"
  by (simp add: ReportLog_def zero_Reporter_def)

section \<open>Properties of close\<close>

lemma ReportLog_frame:
  assumes "ReportLog noMore resp r = Inr (e, r')"
  shows "state r' = state r"
    and "logOffset r' + int (length (logRows r')) = logOffset r + int (length (logRows r))"
    and "outputs r' = outputs r"
  using assms
  by (auto simp: ReportLog_def Let_def split: sum.splits if_splits)

lemma ReportState_frame:
  assumes "ReportState resp r = (e, r')"
  shows "state r' = state r" and "logOffset r' = logOffset r" and "logRows r' = logRows r"
  using assms
  by (auto simp: ReportState_def Let_def split: sum.splits if_splits option.splits)


lemma Close_attempt_frame:
  assumes "Close_attempt log_reply task_reply r = Inr (e, r')"
  shows "state r' = state r \<and>
         logOffset r' + int (length (logRows r')) = logOffset r + int (length (logRows r))"
proof (cases "ReportLog True log_reply r")
  case (Inl p)
  with assms show ?thesis by (simp add: Close_attempt_def)
next
  case (Inr x)
  obtain e1 r1 where x: "x = (e1, r1)" by (cases x)
  note f1 = ReportLog_frame[OF Inr[unfolded x]]
  show ?thesis
  proof (cases e1)
    case (Some err)
    with assms Inr x have "r' = r1" by (simp add: Close_attempt_def)
    with f1 show ?thesis by simp
  next
    case None
    with assms Inr x have "ReportState task_reply r1 = (e, r')" by (simp add: Close_attempt_def)
    from ReportState_frame[OF this] f1 show ?thesis by simp
  qed
qed


lemma retry_Do_frame:
  assumes "retry_Do replies n errorLog r = Inr (e, r')"
  shows "state r' = state r \<and>
         logOffset r' + int (length (logRows r')) = logOffset r + int (length (logRows r))"
  using assms
proof (induction replies arbitrary: n errorLog r)
  case Nil
  then show ?case by simp
next
  case (Cons a replies)
  obtain lr tr where a: "a = (lr, tr)" by (cases a)
  show ?case
  proof (cases "Close_attempt lr tr r")
    case (Inl p)
    with Cons.prems a show ?thesis by simp
  next
    case (Inr x)
    obtain e1 r1 where x: "x = (e1, r1)" by (cases x)
    note f1 = Close_attempt_frame[OF Inr[unfolded x]]
    show ?thesis
    proof (cases e1)
      case None
      with Cons.prems a Inr x have "r' = r1" by simp
      with f1 show ?thesis by simp
    next
      case (Some err)
      show ?thesis
      proof (cases "n = 9 \<or> ctx_cancelled r1")
        case True
        with Cons.prems a Inr x Some have "r' = r1" by (auto split: if_splits)
        with f1 show ?thesis by simp
      next
        case False
        with Cons.prems a Inr x Some
        have "retry_Do replies (Suc n) (errorLog @ [err]) r1 = Inr (e, r')" by simp
        from Cons.IH[OF this] f1 show ?thesis by simp
      qed
    qed
  qed
qed


lemma Close_frame:
  assumes "Close now_row now_stop replies lastWords r = Inr (e, r')"
  shows "state r' = state (Close_locked now_row now_stop lastWords r) \<and>
         logOffset r' + int (length (logRows r')) =
           logOffset (Close_locked now_row now_stop lastWords r)
           + int (length (logRows (Close_locked now_row now_stop lastWords r)))"
proof (cases "ctx_cancelled (Close_locked now_row now_stop lastWords r) \<or> replies = []")
  case True
  with assms have "r' = Close_locked now_row now_stop lastWords r"
    by (auto simp: Close_def Let_def)
  then show ?thesis by simp
next
  case False
  with assms
  have "retry_Do replies 0 [] (Close_locked now_row now_stop lastWords r) = Inr (e, r')"
    by (simp add: Close_def Let_def)
  from retry_Do_frame[OF this] show ?thesis .
qed


lemma Close_locked_unspecified:
  assumes "Result (state r) = RESULT_UNSPECIFIED"
  shows "Result (state (Close_locked now_row now_stop lastWords r)) = RESULT_FAILURE"
    and "StoppedAt (state (Close_locked now_row now_stop lastWords r)) = Some now_stop"
    and "Steps (state (Close_locked now_row now_stop lastWords r)) =
           map (\<lambda>v. if stepResult v = RESULT_UNSPECIFIED
                     then v\<lparr>stepResult := RESULT_CANCELLED\<rparr> else v) (Steps (state r))"
    and "logRows (Close_locked now_row now_stop lastWords r) =
           logRows r @ [\<lparr>Time = now_row,
                         Content = (if lastWords = '''' then ''Early termination'' else lastWords)\<rparr>]"
    and "logOffset (Close_locked now_row now_stop lastWords r) = logOffset r"
  using assms by (simp_all add: Close_locked_def Let_def)

lemma Close_locked_terminal:
  assumes "Result (state r) \<noteq> RESULT_UNSPECIFIED"
  shows "state (Close_locked now_row now_stop lastWords r) = state r"
    and "logOffset (Close_locked now_row now_stop lastWords r) = logOffset r"
    and "lastWords \<noteq> '''' \<Longrightarrow> logRows (Close_locked now_row now_stop lastWords r) =
           logRows r @ [\<lparr>Time = now_row, Content = lastWords\<rparr>]"
    and "lastWords = '''' \<Longrightarrow> logRows (Close_locked now_row now_stop lastWords r) = logRows r"
  using assms by (simp_all add: Close_locked_def Let_def)

text \<open>
  Claim C3. \<^verbatim>\<open>Close(lastWords)\<close> on a reporter whose task result is Unspecified sets the
  result to Failure and the stopped-at time, turns every Unspecified step into Cancelled
  and leaves the other steps as they are, and appends exactly one row whose content is
  \<open>lastWords\<close>, or "Early termination" when \<open>lastWords\<close> is empty. On a reporter whose
  result is already set, a non-empty \<open>lastWords\<close> appends one closing row and the task
  state (result, steps, times) is unchanged. The flushes that follow under the retry leave
  the task state as the locked part made it and only move acknowledged rows out of the
  buffer, so the count of rows (offset plus buffered) stays.
\<close>

theorem Close_finalises:
  "(Result (state r) = RESULT_UNSPECIFIED \<longrightarrow>
      (let r' = Close_locked now_row now_stop lastWords r in
       Result (state r') = RESULT_FAILURE \<and>
       StoppedAt (state r') = Some now_stop \<and>
       length (Steps (state r')) = length (Steps (state r)) \<and>
       (\<forall>i < length (Steps (state r)).
          Steps (state r') ! i =
            (if stepResult (Steps (state r) ! i) = RESULT_UNSPECIFIED
             then (Steps (state r) ! i)\<lparr>stepResult := RESULT_CANCELLED\<rparr>
             else Steps (state r) ! i)) \<and>
       logRows r' = logRows r @ [\<lparr>Time = now_row,
            Content = (if lastWords = '''' then ''Early termination'' else lastWords)\<rparr>])) \<and>
   (Result (state r) \<noteq> RESULT_UNSPECIFIED \<and> lastWords \<noteq> '''' \<longrightarrow>
      (let r' = Close_locked now_row now_stop lastWords r in
       state r' = state r \<and>
       logRows r' = logRows r @ [\<lparr>Time = now_row, Content = lastWords\<rparr>])) \<and>
   (\<forall>replies e r''.
      Close now_row now_stop replies lastWords r = Inr (e, r'') \<longrightarrow>
        state r'' = state (Close_locked now_row now_stop lastWords r) \<and>
        logOffset r'' + int (length (logRows r'')) =
          logOffset r + int (length (logRows (Close_locked now_row now_stop lastWords r))))"
proof (intro conjI impI allI)
  assume u: "Result (state r) = RESULT_UNSPECIFIED"
  show "let r' = Close_locked now_row now_stop lastWords r in
       Result (state r') = RESULT_FAILURE \<and>
       StoppedAt (state r') = Some now_stop \<and>
       length (Steps (state r')) = length (Steps (state r)) \<and>
       (\<forall>i < length (Steps (state r)).
          Steps (state r') ! i =
            (if stepResult (Steps (state r) ! i) = RESULT_UNSPECIFIED
             then (Steps (state r) ! i)\<lparr>stepResult := RESULT_CANCELLED\<rparr>
             else Steps (state r) ! i)) \<and>
       logRows r' = logRows r @ [\<lparr>Time = now_row,
            Content = (if lastWords = '''' then ''Early termination'' else lastWords)\<rparr>]"
    unfolding Let_def
    by (simp add: Close_locked_unspecified[OF u])
next
  assume t: "Result (state r) \<noteq> RESULT_UNSPECIFIED \<and> lastWords \<noteq> ''''"
  then show "let r' = Close_locked now_row now_stop lastWords r in
       state r' = state r \<and>
       logRows r' = logRows r @ [\<lparr>Time = now_row, Content = lastWords\<rparr>]"
    unfolding Let_def by (simp add: Close_locked_terminal)
next
  fix replies e r''
  assume c: "Close now_row now_stop replies lastWords r = Inr (e, r'')"
  from Close_frame[OF c]
  have f: "state r'' = state (Close_locked now_row now_stop lastWords r)"
    "logOffset r'' + int (length (logRows r'')) =
       logOffset (Close_locked now_row now_stop lastWords r)
       + int (length (logRows (Close_locked now_row now_stop lastWords r)))"
    by simp_all
  have "logOffset (Close_locked now_row now_stop lastWords r) = logOffset r"
    by (simp add: Close_locked_def Let_def)
  with f show "state r'' = state (Close_locked now_row now_stop lastWords r)"
    and "logOffset r'' + int (length (logRows r'')) =
          logOffset r + int (length (logRows (Close_locked now_row now_stop lastWords r)))"
    by simp_all
qed

theorem Close_finalises_witness:
  "Result (state two_steps) = RESULT_UNSPECIFIED \<and>
   Result (state (Close_locked 5 6 '''' two_steps)) = RESULT_FAILURE \<and>
   StoppedAt (state (Close_locked 5 6 '''' two_steps)) = Some 6 \<and>
   stepResult (Steps (state (Close_locked 5 6 '''' two_steps)) ! 0) = RESULT_SUCCESS \<and>
   stepResult (Steps (state (Close_locked 5 6 '''' two_steps)) ! 1) = RESULT_CANCELLED \<and>
   logRows (Close_locked 5 6 '''' two_steps) = [\<lparr>Time = 5, Content = ''Early termination''\<rparr>] \<and>
   logRows (Close_locked 7 8 ''bye'' (Close_locked 5 6 '''' two_steps))
     = [\<lparr>Time = 5, Content = ''Early termination''\<rparr>, \<lparr>Time = 7, Content = ''bye''\<rparr>] \<and>
   state (Close_locked 7 8 ''bye'' (Close_locked 5 6 '''' two_steps))
     = state (Close_locked 5 6 '''' two_steps) \<and>
   (\<exists>r''. Close 5 6 [(Inr 1, Inr \<lparr>RespState = None, SentOutputs = []\<rparr>),
                      (Inr 1, Inr \<lparr>RespState = None, SentOutputs = []\<rparr>)] '''' two_steps
            = Inr (None, r'') \<and>
          Result (state r'') = RESULT_FAILURE \<and>
          logOffset r'' + int (length (logRows r'')) = 1)"
proof -
  let ?c = "Close_locked 5 6 '''' two_steps"
  have u: "Result (state two_steps) = RESULT_UNSPECIFIED"
    by (simp add: two_steps_def zero_Reporter_def)
  have n: "length (Steps (state two_steps)) = 2"
    and s0: "stepResult (Steps (state two_steps) ! 0) = RESULT_SUCCESS"
    and s1: "stepResult (Steps (state two_steps) ! 1) = RESULT_UNSPECIFIED"
    and l: "logRows two_steps = []" and o: "logOffset two_steps = 0"
    by (simp_all add: two_steps_def zero_Reporter_def)
  note a = Close_finalises[of two_steps 5 6 "''''", THEN conjunct1, rule_format, OF u,
      unfolded Let_def]
  from a have a1: "Result (state ?c) = RESULT_FAILURE" and a2: "StoppedAt (state ?c) = Some 6"
    and a3: "\<forall>i<length (Steps (state two_steps)). Steps (state ?c) ! i =
              (if stepResult (Steps (state two_steps) ! i) = RESULT_UNSPECIFIED
               then (Steps (state two_steps) ! i)\<lparr>stepResult := RESULT_CANCELLED\<rparr>
               else Steps (state two_steps) ! i)"
    and a4: "logRows ?c = logRows two_steps @ [\<lparr>Time = 5, Content = ''Early termination''\<rparr>]"
    by simp_all
  from a3 n s0 have b0: "stepResult (Steps (state ?c) ! 0) = RESULT_SUCCESS" by simp
  from a3 n s1 have b1: "stepResult (Steps (state ?c) ! 1) = RESULT_CANCELLED" by simp
  have t: "Result (state ?c) \<noteq> RESULT_UNSPECIFIED \<and> ''bye'' \<noteq> ''''" using a1 by simp
  note c = Close_finalises[of ?c 7 8 "''bye''", THEN conjunct2, THEN conjunct1, rule_format,
      OF t, unfolded Let_def]
  let ?replies = "[(Inr 1, Inr \<lparr>RespState = None, SentOutputs = []\<rparr>),
                   (Inr 1, Inr \<lparr>RespState = None, SentOutputs = []\<rparr>)]"
  have "\<exists>r''. Close 5 6 ?replies '''' two_steps = Inr (None, r'')"
    by (simp add: Close_def Close_attempt_def Close_locked_def ReportLog_def ReportState_def
        two_steps_def zero_Reporter_def Let_def)
  then obtain r'' where d: "Close 5 6 ?replies '''' two_steps = Inr (None, r'')" by blast
  note e = Close_finalises[of two_steps 5 6 "''''", THEN conjunct2, THEN conjunct2, rule_format,
      OF d]
  from e a1 a4 l o have "Result (state r'') = RESULT_FAILURE"
    and "logOffset r'' + int (length (logRows r'')) = 1" by simp_all
  with d have f: "\<exists>r''. Close 5 6 ?replies '''' two_steps = Inr (None, r'') \<and>
          Result (state r'') = RESULT_FAILURE \<and>
          logOffset r'' + int (length (logRows r'')) = 1" by blast
  from u a1 a2 b0 b1 a4 l c f show ?thesis by simp
qed

section \<open>Properties of the outputs\<close>

lemma duringSteps_logf [simp]: "duringSteps (logf now content r) = duringSteps r"
  by (simp add: logf_def duringSteps_def)

lemma duringSteps_outputs_update [simp]: "duringSteps (r\<lparr>outputs := m\<rparr>) = duringSteps r"
  by (simp add: duringSteps_def)

lemma outputs_logf [simp]: "outputs (logf now content r) = outputs r"
  by (simp add: logf_def)

lemma logRows_logf:
  "logRows (logf now content r) =
     logRows r @ (if duringSteps r then [] else [\<lparr>Time = now, Content = content\<rparr>])"
  by (simp add: logf_def)

lemma SetOutputs_Cons:
  "SetOutputs quote itoa now ((k, v) # kvs) r =
     SetOutputs quote itoa now kvs (output_step quote itoa now k v r)"
  by (simp add: output_step_def Let_def split: option.splits)

lemma output_step_duringSteps [simp]:
  "duringSteps (output_step quote itoa now k v r) = duringSteps r"
  by (simp add: output_step_def Let_def split: option.splits)

lemma output_step_keeps:
  "map_of (outputs r) k' = Some x \<Longrightarrow>
   map_of (outputs (output_step quote itoa now k v r)) k' = Some x"
  by (auto simp: output_step_def Let_def split: option.splits)

lemma output_step_other:
  "k' \<noteq> k \<Longrightarrow>
   map_of (outputs (output_step quote itoa now k v r)) k' = map_of (outputs r) k'"
  by (auto simp: output_step_def Let_def map_add_def split: option.splits)

lemma output_step_long_key:
  "255 < length k \<Longrightarrow> outputs (output_step quote itoa now k v r) = outputs r"
  by (simp add: output_step_def)

lemma output_step_stores:
  "length k \<le> 255 \<Longrightarrow> map_of (outputs r) k = None \<Longrightarrow>
   map_of (outputs (output_step quote itoa now k v r)) k = Some (Pending v)"
  by (auto simp: output_step_def Let_def map_add_def split: option.splits)

lemma output_step_logRows:
  "logRows (output_step quote itoa now k v r) =
     logRows r @ (if duringSteps r then []
                  else if 255 < length k
                  then [\<lparr>Time = now k,
                         Content = ''ignore output because the key is too long: '' @ quote k\<rparr>]
                  else if 1024 * 1024 < length v
                  then [\<lparr>Time = now k,
                         Content = ''ignore output because the value '' @ quote k
                                   @ '' is too long: '' @ itoa (length v)\<rparr>]
                  else [])"
  by (auto simp: output_step_def Let_def logRows_logf split: option.splits)

lemma duringSteps_SetOutputs [simp]:
  "duringSteps (SetOutputs quote itoa now kvs r) = duringSteps r"
proof (induction kvs arbitrary: r)
  case Nil
  show ?case by simp
next
  case (Cons kv kvs)
  obtain k v where "kv = (k, v)" by (cases kv)
  with Cons show ?case by (simp only: SetOutputs_Cons output_step_duringSteps)
qed

lemma SetOutputs_keeps:
  "map_of (outputs r) k = Some x \<Longrightarrow>
   map_of (outputs (SetOutputs quote itoa now kvs r)) k = Some x"
proof (induction kvs arbitrary: r)
  case Nil
  then show ?case by simp
next
  case (Cons kv kvs)
  obtain k' v where kv: "kv = (k', v)" by (cases kv)
  from Cons.prems have "map_of (outputs (output_step quote itoa now k' v r)) k = Some x"
    by (rule output_step_keeps)
  from Cons.IH[OF this] show ?case by (simp only: kv SetOutputs_Cons)
qed

lemma SetOutputs_long_key:
  "255 < length k \<Longrightarrow> map_of (outputs r) k = None \<Longrightarrow>
   map_of (outputs (SetOutputs quote itoa now kvs r)) k = None"
proof (induction kvs arbitrary: r)
  case Nil
  then show ?case by simp
next
  case (Cons kv kvs)
  obtain k' v where kv: "kv = (k', v)" by (cases kv)
  have "map_of (outputs (output_step quote itoa now k' v r)) k = None"
  proof (cases "k' = k")
    case True
    with Cons.prems show ?thesis by (simp add: output_step_long_key)
  next
    case False
    then have "k \<noteq> k'" by simp
    with Cons.prems show ?thesis by (simp add: output_step_other)
  qed
  from Cons.IH[OF Cons.prems(1) this] show ?case by (simp only: kv SetOutputs_Cons)
qed

lemma SetOutputs_stores:
  "map_of kvs k = Some v \<Longrightarrow> length k \<le> 255 \<Longrightarrow> map_of (outputs r) k = None \<Longrightarrow>
   map_of (outputs (SetOutputs quote itoa now kvs r)) k = Some (Pending v)"
proof (induction kvs arbitrary: r)
  case Nil
  then show ?case by simp
next
  case (Cons kv kvs)
  obtain k' v' where kv: "kv = (k', v')" by (cases kv)
  show ?case
  proof (cases "k' = k")
    case True
    with Cons.prems kv have "v' = v" by simp
    with True Cons.prems
    have "map_of (outputs (output_step quote itoa now k' v' r)) k = Some (Pending v)"
      by (simp add: output_step_stores)
    then show ?thesis by (simp only: kv SetOutputs_Cons SetOutputs_keeps)
  next
    case False
    with Cons.prems kv have m: "map_of kvs k = Some v" by simp
    from False have "k \<noteq> k'" by simp
    with Cons.prems have "map_of (outputs (output_step quote itoa now k' v' r)) k = None"
      by (simp add: output_step_other)
    from Cons.IH[OF m Cons.prems(2) this] show ?thesis by (simp only: kv SetOutputs_Cons)
  qed
qed

lemma SetOutputs_logRows:
  "logRows (SetOutputs quote itoa now kvs r) =
     logRows r @ (if duringSteps r then [] else output_rows quote itoa now kvs)"
proof (induction kvs arbitrary: r)
  case Nil
  show ?case by (simp add: output_rows_def)
next
  case (Cons kv kvs)
  obtain k v where kv: "kv = (k, v)" by (cases kv)
  have "logRows (SetOutputs quote itoa now (kv # kvs) r) =
        logRows (output_step quote itoa now k v r)
          @ (if duringSteps r then [] else output_rows quote itoa now kvs)"
    by (simp only: kv SetOutputs_Cons Cons.IH output_step_duringSteps)
  then show ?case
    by (simp add: output_step_logRows kv output_rows_def)
qed

lemma length_long_key: "length long_key = 256"
  by (simp add: long_key_def)

lemma length_long_value: "length long_value = 1048577"
  by (simp add: long_value_def)

lemma duringSteps_two_steps: "duringSteps two_steps"
  by (simp add: duringSteps_def two_steps_def zero_Reporter_def)

text \<open>
  Claim C7, as the code has it. A key longer than 255 bytes is never stored; a key that
  is present keeps its value; a new key of at most 255 bytes with a value of at most
  1 MiB is stored as pending; and the rows appended are one per key longer than 255 bytes
  and one per value longer than 1 MiB (under a key of at most 255 bytes), in the order of
  the loop, when the reporter is not during steps, and none when it is.
\<close>

theorem SetOutputs_rejects_and_keeps:
  "(\<forall>k. 255 < length k \<and> map_of (outputs r) k = None \<longrightarrow>
        map_of (outputs (SetOutputs quote itoa now kvs r)) k = None) \<and>
   (\<forall>k x. map_of (outputs r) k = Some x \<longrightarrow>
        map_of (outputs (SetOutputs quote itoa now kvs r)) k = Some x) \<and>
   (\<forall>k v. map_of kvs k = Some v \<and> length k \<le> 255 \<and> length v \<le> 1024 * 1024 \<and>
          map_of (outputs r) k = None \<longrightarrow>
        map_of (outputs (SetOutputs quote itoa now kvs r)) k = Some (Pending v)) \<and>
   logRows (SetOutputs quote itoa now kvs r) =
     logRows r @ (if duringSteps r then [] else output_rows quote itoa now kvs)"
  by (simp add: SetOutputs_long_key SetOutputs_keeps SetOutputs_stores SetOutputs_logRows)

theorem SetOutputs_rejects_and_keeps_witness:
  "map_of (outputs (SetOutputs (\<lambda>k. k) (\<lambda>n. ''n'') (\<lambda>k. 7)
             [(long_key, ''x''), (''a'', ''2''), (''b'', ''3'')]
             (zero_Reporter\<lparr>outputs := [(''a'', Pending ''1'')]\<rparr>))) long_key = None \<and>
   map_of (outputs (SetOutputs (\<lambda>k. k) (\<lambda>n. ''n'') (\<lambda>k. 7)
             [(long_key, ''x''), (''a'', ''2''), (''b'', ''3'')]
             (zero_Reporter\<lparr>outputs := [(''a'', Pending ''1'')]\<rparr>))) ''a'' = Some (Pending ''1'') \<and>
   map_of (outputs (SetOutputs (\<lambda>k. k) (\<lambda>n. ''n'') (\<lambda>k. 7)
             [(long_key, ''x''), (''a'', ''2''), (''b'', ''3'')]
             (zero_Reporter\<lparr>outputs := [(''a'', Pending ''1'')]\<rparr>))) ''b'' = Some (Pending ''3'') \<and>
   logRows (SetOutputs (\<lambda>k. k) (\<lambda>n. ''n'') (\<lambda>k. 7)
             [(long_key, ''x''), (''a'', ''2''), (''b'', ''3'')]
             (zero_Reporter\<lparr>outputs := [(''a'', Pending ''1'')]\<rparr>))
     = [\<lparr>Time = 7, Content = ''ignore output because the key is too long: '' @ long_key\<rparr>]"
proof -
  let ?r = "zero_Reporter\<lparr>outputs := [(''a'', Pending ''1'')]\<rparr>"
  let ?kvs = "[(long_key, ''x''), (''a'', ''2''), (''b'', ''3'')]"
  have ne: "long_key \<noteq> ''a''" "long_key \<noteq> ''b''"
    using length_long_key by (auto dest: arg_cong[where f = length])
  have o: "outputs ?r = [(''a'', Pending ''1'')]" and l: "logRows ?r = []"
    and d: "\<not> duringSteps ?r"
    by (simp_all add: zero_Reporter_def duringSteps_def)
  define res where "res = SetOutputs (\<lambda>k. k) (\<lambda>n. ''n'') (\<lambda>k. 7) ?kvs ?r"
  note t = SetOutputs_rejects_and_keeps[of ?r "\<lambda>k. k" "\<lambda>n. ''n''" "\<lambda>k. 7" ?kvs,
      folded res_def]
  have h1: "255 < length long_key \<and> map_of (outputs ?r) long_key = None"
    using ne by (simp add: o length_long_key)
  have h2: "map_of (outputs ?r) ''a'' = Some (Pending ''1'')" by (simp add: o)
  have h3: "map_of ?kvs ''b'' = Some ''3'' \<and> length ''b'' \<le> 255 \<and>
            length ''3'' \<le> 1024 * 1024 \<and> map_of (outputs ?r) ''b'' = None"
    using ne by (simp add: o)
  have rows: "output_rows (\<lambda>k. k) (\<lambda>n. ''n'') (\<lambda>k. 7) ?kvs =
      [\<lparr>Time = 7, Content = ''ignore output because the key is too long: '' @ long_key\<rparr>]"
    by (simp add: output_rows_def length_long_key)
  from t[THEN conjunct2, THEN conjunct2, THEN conjunct2]
  have r4: "logRows res =
      [\<lparr>Time = 7, Content = ''ignore output because the key is too long: '' @ long_key\<rparr>]"
    by (simp only: d l rows if_False append_Nil)
  from t[THEN conjunct1, rule_format, OF h1]
       t[THEN conjunct2, THEN conjunct1, rule_format, OF h2]
       t[THEN conjunct2, THEN conjunct2, THEN conjunct1, rule_format, OF h3]
       r4
  show ?thesis unfolding res_def[symmetric] by blast
qed

text \<open>
  Where the code departs from claim C7 as stated. During steps (the first step finished,
  the last still running) a key longer than 255 bytes appends no row; and a value longer
  than 1 MiB under a new key is stored all the same.
\<close>

theorem SetOutputs_counterexample:
  "duringSteps two_steps \<and> 255 < length long_key \<and>
   logRows (SetOutputs (\<lambda>k. k) (\<lambda>n. ''n'') (\<lambda>k. 7) [(long_key, ''x'')] two_steps)
     = logRows two_steps \<and>
   1024 * 1024 < length long_value \<and>
   map_of (outputs (SetOutputs (\<lambda>k. k) (\<lambda>n. ''n'') (\<lambda>k. 7) [(''k'', long_value)] zero_Reporter))
     ''k'' = Some (Pending long_value)"
proof -
  have "logRows (SetOutputs (\<lambda>k. k) (\<lambda>n. ''n'') (\<lambda>k. 7) [(long_key, ''x'')] two_steps)
     = logRows two_steps"
    by (simp only: SetOutputs_logRows duringSteps_two_steps if_True append_Nil2)
  moreover have "map_of (outputs (SetOutputs (\<lambda>k. k) (\<lambda>n. ''n'') (\<lambda>k. 7)
        [(''k'', long_value)] zero_Reporter)) ''k'' = Some (Pending long_value)"
    by (simp add: length_long_value logf_def duringSteps_def zero_Reporter_def Let_def)
  ultimately show ?thesis
    by (simp add: duringSteps_two_steps length_long_key length_long_value)
qed

section \<open>Properties of the log hook\<close>

lemma addMask_frame:
  "addMask msg r = Inr r' \<Longrightarrow>
   state r' = state r \<and> logRows r' = logRows r \<and> logOffset r' = logOffset r \<and>
   outputs r' = outputs r \<and> stopCommandEndToken r' = stopCommandEndToken r \<and>
   debugOutputEnabled r' = debugOutputEnabled r"
  by (auto simp: addMask_def Let_def split: sum.splits)

lemma handleCommand_frame:
  "handleCommand c command parameters val r = Inr (out, r') \<Longrightarrow>
   state r' = state r \<and> logRows r' = logRows r \<and> logOffset r' = logOffset r \<and>
   outputs r' = outputs r \<and> debugOutputEnabled r' = debugOutputEnabled r"
  by (auto simp: handleCommand_def split: if_splits sum.splits dest: addMask_frame)

lemma parseLogRow_frame:
  "parseLogRow entry r = Inr (row, r') \<Longrightarrow>
   state r' = state r \<and> logRows r' = logRows r \<and> logOffset r' = logOffset r \<and>
   outputs r' = outputs r \<and> debugOutputEnabled r' = debugOutputEnabled r"
  by (auto simp: parseLogRow_def Let_def split: option.splits sum.splits prod.splits
      dest: handleCommand_frame)

lemma log_unless_duringSteps_frame:
  "log_unless_duringSteps entry r = Inr r' \<Longrightarrow> state r' = state r \<and> logOffset r' = logOffset r"
  by (auto simp: log_unless_duringSteps_def split: if_splits sum.splits prod.splits
      dest: parseLogRow_frame)

lemma Fire_not_Main:
  assumes "Data entry ''stage'' \<noteq> Some (DString ''Main'')" and "Fire entry r = Inr r'"
  shows "Steps (state r') =
           (case job_result_of entry of
              None \<Rightarrow> Steps (state r)
            | Some res \<Rightarrow>
                map (\<lambda>s. if stepResult s = RESULT_UNSPECIFIED
                          then s\<lparr>stepResult := (if res = RESULT_SKIPPED
                                                 then RESULT_SKIPPED else RESULT_CANCELLED)\<rparr>
                          else s) (Steps (state r)))"
    and "Result (state r') = (case job_result_of entry of None \<Rightarrow> Result (state r) | Some res \<Rightarrow> res)"
    and "StoppedAt (state r') =
           (case job_result_of entry of None \<Rightarrow> StoppedAt (state r)
            | Some res \<Rightarrow> Some (EntryTime entry))"
  using assms
  by (auto simp: Fire_def Let_def job_result_of_def split: option.splits if_splits
      dest!: log_unless_duringSteps_frame)

lemma stepOf_Some:
  "stepOf entry r = Inr (Some i) \<longleftrightarrow>
     Data entry ''stepNumber'' = Some (DInt (int i)) \<and> i < length (Steps (state r))"
  by (auto simp: stepOf_def split: option.splits data_value.splits if_splits)

lemma stepOf_None:
  "stepOf entry r = Inr None \<Longrightarrow> i < length (Steps (state r)) \<Longrightarrow>
     Data entry ''stepNumber'' \<noteq> Some (DInt (int i))"
  by (auto simp: stepOf_def split: option.splits data_value.splits if_splits)

lemma setStep_simps [simp]:
  "Result (state (setStep i f r)) = Result (state r)"
  "StoppedAt (state (setStep i f r)) = StoppedAt (state r)"
  "StartedAt (state (setStep i f r)) = StartedAt (state r)"
  "length (Steps (state (setStep i f r))) = length (Steps (state r))"
  "logRows (setStep i f r) = logRows r"
  "logOffset (setStep i f r) = logOffset r"
  "j \<noteq> i \<Longrightarrow> Steps (state (setStep i f r)) ! j = Steps (state r) ! j"
  "i < length (Steps (state r)) \<Longrightarrow> Steps (state (setStep i f r)) ! i = f (Steps (state r) ! i)"
  by (simp_all add: setStep_def)

lemma getStep_setStep [simp]:
  "i < length (Steps (state r)) \<Longrightarrow> getStep i (setStep i f r) = f (getStep i r)"
  by (simp add: getStep_def setStep_def)

lemma getStep_logRows_update [simp]: "getStep i (r\<lparr>logRows := x\<rparr>) = getStep i r"
  by (simp add: getStep_def)

text \<open>The part of \<^verbatim>\<open>Fire\<close> from line 143 on, for the step at index \<open>i\<close>.\<close>

lemma Fire_step:
  assumes m: "Data entry ''stage'' = Some (DString ''Main'')"
    and s: "stepOf entry r = Inr (Some i)"
    and f: "Fire entry r = Inr r'"
  shows "Result (state r') = Result (state r)"
    and "StoppedAt (state r') = StoppedAt (state r)"
    and "length (Steps (state r')) = length (Steps (state r))"
    and "j \<noteq> i \<Longrightarrow> Steps (state r') ! j = Steps (state r) ! j"
    and "stepResult (Steps (state r') ! i) =
           (case step_result_of entry i of None \<Rightarrow> stepResult (Steps (state r) ! i)
            | Some res \<Rightarrow> res)"
    and "stepStoppedAt (Steps (state r') ! i) =
           (case step_result_of entry i of None \<Rightarrow> stepStoppedAt (Steps (state r) ! i)
            | Some res \<Rightarrow> Some (EntryTime entry))"
proof -
  from s have i: "i < length (Steps (state r))"
    and n: "Data entry ''stepNumber'' = Some (DInt (int i))"
    by (simp_all add: stepOf_Some)
  define r1 where "r1 = (if StartedAt (state r) = None
                then r\<lparr>state := (state r)\<lparr>StartedAt := Some (EntryTime entry)\<rparr>\<rparr> else r)"
  have r1: "Steps (state r1) = Steps (state r)" "Result (state r1) = Result (state r)"
    "StoppedAt (state r1) = StoppedAt (state r)"
    by (simp_all add: r1_def)
  from i n r1 have s1: "stepOf entry r1 = Inr (Some i)" by (simp add: stepOf_Some)
  define r2 where "r2 = (if stepStartedAt (getStep i r1) = None
                        then setStep i (\<lambda>s. s\<lparr>stepStartedAt := Some (EntryTime entry)\<rparr>) r1 else r1)"
  have r2: "length (Steps (state r2)) = length (Steps (state r))"
    "Result (state r2) = Result (state r)" "StoppedAt (state r2) = StoppedAt (state r)"
    "\<And>j. j \<noteq> i \<Longrightarrow> Steps (state r2) ! j = Steps (state r) ! j"
    "stepResult (Steps (state r2) ! i) = stepResult (Steps (state r) ! i)"
    "stepStoppedAt (Steps (state r2) ! i) = stepStoppedAt (Steps (state r) ! i)"
    using i by (simp_all add: r2_def r1)
  define logged where "logged =
                    (case Data entry ''raw_output'' of
                       Some v \<Rightarrow>
                         if v = DBool True then
                           (case parseLogRow entry r2 of
                              Inl p \<Rightarrow> Inl p
                            | Inr (None, r3) \<Rightarrow> Inr r3
                            | Inr (Some row, r3) \<Rightarrow>
                                (let r4 = (if LogLength (getStep i r3) = 0
                                           then setStep i (\<lambda>s. s\<lparr>LogIndex :=
                                                  logOffset r3 + int (length (logRows r3))\<rparr>) r3
                                           else r3);
                                     r5 = setStep i (\<lambda>s. s\<lparr>LogLength := LogLength s + 1\<rparr>) r4
                                 in Inr (r5\<lparr>logRows := logRows r5 @ [row]\<rparr>)))
                         else Inr r2
                     | None \<Rightarrow> log_unless_duringSteps entry r2)"
  have fire: "Fire entry r =
              (case logged of
                Inl p \<Rightarrow> Inl p
              | Inr r6 \<Rightarrow>
                  (case Data entry ''stepResult'' of
                     None \<Rightarrow> Inr r6
                   | Some v \<Rightarrow>
                       (case parseResult v of
                          None \<Rightarrow> Inr r6
                        | Some res \<Rightarrow>
                            (let r7 = (if LogLength (getStep i r6) = 0
                                       then setStep i (\<lambda>s. s\<lparr>LogIndex :=
                                              logOffset r6 + int (length (logRows r6))\<rparr>) r6
                                       else r6)
                             in Inr (setStep i (\<lambda>s. s\<lparr>stepResult := res,
                                                        stepStoppedAt := Some (EntryTime entry)\<rparr>) r7)))))"
    using m s1 unfolding Fire_def Let_def logged_def r2_def r1_def by simp
  from f fire obtain r6 where l: "logged = Inr r6" by (cases logged) auto
  have r6: "length (Steps (state r6)) = length (Steps (state r))"
    "Result (state r6) = Result (state r)" "StoppedAt (state r6) = StoppedAt (state r)"
    "\<And>j. j \<noteq> i \<Longrightarrow> Steps (state r6) ! j = Steps (state r) ! j"
    "stepResult (Steps (state r6) ! i) = stepResult (Steps (state r) ! i)"
    "stepStoppedAt (Steps (state r6) ! i) = stepStoppedAt (Steps (state r) ! i)"
    using l i r2 unfolding logged_def
    by (auto simp: Let_def split: option.splits if_splits sum.splits prod.splits
        dest!: parseLogRow_frame log_unless_duringSteps_frame)
  have sr: "step_result_of entry i =
      (case Data entry ''stepResult'' of Some v \<Rightarrow> parseResult v | None \<Rightarrow> None)"
    using m n by (simp add: step_result_of_def)
  from f fire l i r6 sr
  show "Result (state r') = Result (state r)"
    and "StoppedAt (state r') = StoppedAt (state r)"
    and "length (Steps (state r')) = length (Steps (state r))"
    and "j \<noteq> i \<Longrightarrow> Steps (state r') ! j = Steps (state r) ! j"
    and "stepResult (Steps (state r') ! i) =
           (case step_result_of entry i of None \<Rightarrow> stepResult (Steps (state r) ! i)
            | Some res \<Rightarrow> res)"
    and "stepStoppedAt (Steps (state r') ! i) =
           (case step_result_of entry i of None \<Rightarrow> stepStoppedAt (Steps (state r) ! i)
            | Some res \<Rightarrow> Some (EntryTime entry))"
    by (auto simp: Let_def split: option.splits if_splits)
qed

lemma Fire_no_step:
  assumes m: "Data entry ''stage'' = Some (DString ''Main'')"
    and s: "stepOf entry r = Inr None"
    and f: "Fire entry r = Inr r'"
  shows "Result (state r') = Result (state r)"
    and "StoppedAt (state r') = StoppedAt (state r)"
    and "Steps (state r') = Steps (state r)"
proof -
  define r1 where "r1 = (if StartedAt (state r) = None
                then r\<lparr>state := (state r)\<lparr>StartedAt := Some (EntryTime entry)\<rparr>\<rparr> else r)"
  have r1: "Steps (state r1) = Steps (state r)" "Result (state r1) = Result (state r)"
    "StoppedAt (state r1) = StoppedAt (state r)"
    by (simp_all add: r1_def)
  have "stepOf entry r1 = stepOf entry r"
    by (simp add: stepOf_def r1 split: option.splits data_value.splits)
  with s have s1: "stepOf entry r1 = Inr None" by simp
  have "Fire entry r = log_unless_duringSteps entry r1"
    using m s1 unfolding Fire_def Let_def r1_def by simp
  with f have "log_unless_duringSteps entry r1 = Inr r'" by simp
  from log_unless_duringSteps_frame[OF this] r1
  show "Result (state r') = Result (state r)"
    and "StoppedAt (state r') = StoppedAt (state r)"
    and "Steps (state r') = Steps (state r)" by simp_all
qed

text \<open>
  Claim C4, as the code has it. \<^verbatim>\<open>Fire\<close> has no guard on a result that is already
  set. An entry outside stage Main that carries a job result the hook can parse sets the
  task's result and stopped-at time to its own, whatever they were, and turns the steps
  that are still Unspecified into Cancelled (Skipped for a skipped job); an entry of stage
  Main that addresses an existing step and carries a step result the hook can parse sets
  that step's result and stopped-at time to its own, whatever they were. Every other entry
  leaves the task's and every step's result and stopped-at time as they are. So each is
  written once per entry that carries it, not once per task or step.
\<close>

theorem Fire_result_writes:
  assumes f: "Fire entry r = Inr r'"
  shows
   "Result (state r') = (case job_result_of entry of None \<Rightarrow> Result (state r) | Some res \<Rightarrow> res) \<and>
    StoppedAt (state r') =
      (case job_result_of entry of None \<Rightarrow> StoppedAt (state r)
       | Some res \<Rightarrow> Some (EntryTime entry)) \<and>
    length (Steps (state r')) = length (Steps (state r)) \<and>
    (\<forall>i < length (Steps (state r)).
       stepStoppedAt (Steps (state r') ! i) =
         (case step_result_of entry i of None \<Rightarrow> stepStoppedAt (Steps (state r) ! i)
          | Some res \<Rightarrow> Some (EntryTime entry)) \<and>
       stepResult (Steps (state r') ! i) =
         (case step_result_of entry i of
            Some res \<Rightarrow> res
          | None \<Rightarrow>
              (case job_result_of entry of
                 None \<Rightarrow> stepResult (Steps (state r) ! i)
               | Some res \<Rightarrow>
                   if stepResult (Steps (state r) ! i) = RESULT_UNSPECIFIED
                   then (if res = RESULT_SKIPPED then RESULT_SKIPPED else RESULT_CANCELLED)
                   else stepResult (Steps (state r) ! i))))"
proof (cases "Data entry ''stage'' = Some (DString ''Main'')")
  case False
  then have sr: "\<And>i. step_result_of entry i = None" by (simp add: step_result_of_def)
  from Fire_not_Main[OF False f] show ?thesis
    by (auto simp: sr split: option.splits)
next
  case True
  then have jr: "job_result_of entry = None" by (simp add: job_result_of_def)
  from f True obtain so where so: "stepOf entry r = Inr so"
    by (cases "stepOf entry r")
       (auto simp: Fire_def Let_def stepOf_def split: option.splits data_value.splits if_splits)
  show ?thesis
  proof (cases so)
    case None
    with so have s: "stepOf entry r = Inr None" by simp
    have "\<And>i. i < length (Steps (state r)) \<Longrightarrow> step_result_of entry i = None"
      using stepOf_None[OF s] by (simp add: step_result_of_def)
    with Fire_no_step[OF True s f] show ?thesis by (auto simp: jr split: option.splits)
  next
    case (Some i0)
    with so have s: "stepOf entry r = Inr (Some i0)" by simp
    then have n: "Data entry ''stepNumber'' = Some (DInt (int i0))" by (simp add: stepOf_Some)
    have other: "\<And>i. i \<noteq> i0 \<Longrightarrow> step_result_of entry i = None"
      using n by (simp add: step_result_of_def)
    note fs = Fire_step[OF True s f]
    have "stepStoppedAt (Steps (state r') ! i) =
         (case step_result_of entry i of None \<Rightarrow> stepStoppedAt (Steps (state r) ! i)
          | Some res \<Rightarrow> Some (EntryTime entry)) \<and>
       stepResult (Steps (state r') ! i) =
         (case step_result_of entry i of
            Some res \<Rightarrow> res
          | None \<Rightarrow> stepResult (Steps (state r) ! i))" for i
    proof (cases "i = i0")
      case True
      with fs(5,6) show ?thesis by (simp split: option.splits)
    next
      case False
      with fs(4)[of i] other[of i] show ?thesis by simp
    qed
    with fs(1,2,3) show ?thesis by (auto simp: jr split: option.splits)
  qed
qed

text \<open>
  Where the code departs from claim C4 as stated: a second job result overwrites the
  task's result and stopped-at time set by the first, and a second step result for step 0
  overwrites that step's result and stopped-at time.
\<close>

theorem Fire_overwrites_counterexample:
  "Fire_all [job_entry 1 ''success''] zero_Reporter =
     Inr (zero_Reporter\<lparr>logRows := [\<lparr>Time = 1, Content = ''job''\<rparr>],
            state := \<lparr>Id = 0, Result = RESULT_SUCCESS, StartedAt = Some 1,
                      StoppedAt = Some 1, Steps = []\<rparr>\<rparr>) \<and>
   Fire_all [job_entry 1 ''success'', job_entry 2 ''failure''] zero_Reporter =
     Inr (zero_Reporter\<lparr>logRows := [\<lparr>Time = 1, Content = ''job''\<rparr>, \<lparr>Time = 2, Content = ''job''\<rparr>],
            state := \<lparr>Id = 0, Result = RESULT_FAILURE, StartedAt = Some 1,
                      StoppedAt = Some 2, Steps = []\<rparr>\<rparr>) \<and>
   Fire_all [step_entry 1 0 ''success''] (ResetSteps 1 zero_Reporter) =
     Inr (zero_Reporter\<lparr>logRows := [\<lparr>Time = 1, Content = ''step''\<rparr>],
            state := \<lparr>Id = 0, Result = RESULT_UNSPECIFIED, StartedAt = Some 1,
                      StoppedAt = None,
                      Steps = [\<lparr>stepId = 0, stepResult = RESULT_SUCCESS,
                                stepStartedAt = Some 1, stepStoppedAt = Some 1,
                                LogIndex = 1, LogLength = 0\<rparr>]\<rparr>\<rparr>) \<and>
   Fire_all [step_entry 1 0 ''success'', step_entry 2 0 ''failure''] (ResetSteps 1 zero_Reporter) =
     Inr (zero_Reporter\<lparr>logRows := [\<lparr>Time = 1, Content = ''step''\<rparr>, \<lparr>Time = 2, Content = ''step''\<rparr>],
            state := \<lparr>Id = 0, Result = RESULT_UNSPECIFIED, StartedAt = Some 1,
                      StoppedAt = None,
                      Steps = [\<lparr>stepId = 0, stepResult = RESULT_FAILURE,
                                stepStartedAt = Some 1, stepStoppedAt = Some 2,
                                LogIndex = 2, LogLength = 0\<rparr>]\<rparr>\<rparr>)"
  by code_simp

theorem Fire_result_writes_witness:
  "Fire (job_entry 2 ''failure'')
      (zero_Reporter\<lparr>state := \<lparr>Id = 0, Result = RESULT_SUCCESS, StartedAt = Some 1,
                                 StoppedAt = Some 1, Steps = []\<rparr>\<rparr>)
     = Inr (zero_Reporter\<lparr>logRows := [\<lparr>Time = 2, Content = ''job''\<rparr>],
              state := \<lparr>Id = 0, Result = RESULT_FAILURE, StartedAt = Some 1,
                        StoppedAt = Some 2, Steps = []\<rparr>\<rparr>) \<and>
   job_result_of (job_entry 2 ''failure'') = Some RESULT_FAILURE \<and>
   job_result_of (step_entry 3 0 ''success'') = None \<and>
   (\<exists>r'. Fire (step_entry 3 0 ''success'')
            (zero_Reporter\<lparr>state := \<lparr>Id = 0, Result = RESULT_SUCCESS, StartedAt = Some 1,
                                       StoppedAt = Some 1, Steps = []\<rparr>\<rparr>) = Inr r' \<and>
         Result (state r') = RESULT_SUCCESS \<and> StoppedAt (state r') = Some 1)"
proof -
  let ?r = "zero_Reporter\<lparr>state := \<lparr>Id = 0, Result = RESULT_SUCCESS, StartedAt = Some 1,
                                      StoppedAt = Some 1, Steps = []\<rparr>\<rparr>"
  have h: "Fire (job_entry 2 ''failure'') ?r
     = Inr (zero_Reporter\<lparr>logRows := [\<lparr>Time = 2, Content = ''job''\<rparr>],
              state := \<lparr>Id = 0, Result = RESULT_FAILURE, StartedAt = Some 1,
                        StoppedAt = Some 2, Steps = []\<rparr>\<rparr>)"
    by code_simp
  have j: "job_result_of (job_entry 2 ''failure'') = Some RESULT_FAILURE"
    and k: "job_result_of (step_entry 3 0 ''success'') = None"
    by code_simp+
  have "Fire (step_entry 3 0 ''success'') ?r =
          Inr (zero_Reporter\<lparr>logRows := [\<lparr>Time = 3, Content = ''step''\<rparr>],
                 state := \<lparr>Id = 0, Result = RESULT_SUCCESS, StartedAt = Some 1,
                           StoppedAt = Some 1, Steps = []\<rparr>\<rparr>)"
    by code_simp
  then obtain r' where s: "Fire (step_entry 3 0 ''success'') ?r = Inr r'" by blast
  from Fire_result_writes[OF s] k
  have "Result (state r') = RESULT_SUCCESS \<and> StoppedAt (state r') = Some 1" by simp
  with s h j k show ?thesis by blast
qed

section \<open>Properties of the runner\<close>





text \<open>
  A panic of the first heartbeat leaves the call blocked with the id still in the set.
\<close>

lemma Run_blocks:
  assumes "TaskId task \<notin> runningTasks rn" and "NewReporter task = Inr reporter"
    and "RunDaemon (daemon_log_reply env) (daemon_task_reply env) reporter = Inl p"
  shows "Run itoa env body task rn =
           (Blocks, rn\<lparr>runningTasks := insert (TaskId task) (runningTasks rn)\<rparr>, None)"
  using assms by (simp add: Run_def Let_def)





section \<open>Properties of the shutdown\<close>

text \<open>
  The places after the receive of line 87 are never reached, so the jobs context is never
  cancelled and the timeout error is never returned, whatever the order of events.
\<close>

lemma Shutdown_step_invariant:
  assumes "pc p \<in> {AtStart, AtSelect, AtReceive, Returned_nil}" and "\<not> jobs_cancelled p"
    and "done_sent p = []"
  shows "pc (Shutdown_step e p) \<in> {AtStart, AtSelect, AtReceive, Returned_nil} \<and>
         \<not> jobs_cancelled (Shutdown_step e p) \<and> done_sent (Shutdown_step e p) = []"
  using assms by (cases e) (auto simp: receive_done_def split: place.splits)

lemma Shutdown_run_invariant:
  assumes "pc p \<in> {AtStart, AtSelect, AtReceive, Returned_nil}" and "\<not> jobs_cancelled p"
    and "done_sent p = []"
  shows "pc (Shutdown_run es p) \<in> {AtStart, AtSelect, AtReceive, Returned_nil} \<and>
         \<not> jobs_cancelled (Shutdown_run es p) \<and> done_sent (Shutdown_run es p) = []"
  using assms
proof (induction es arbitrary: p)
  case Nil
  then show ?case by simp
next
  case (Cons e es)
  from Shutdown_step_invariant[OF Cons.prems] Cons.IH show ?case by simp
qed

lemma Shutdown_never_forces:
  "\<not> jobs_cancelled (Shutdown_run es New) \<and> pc (Shutdown_run es New) \<noteq> Returned_ctx_Err"
proof -
  have "pc New \<in> {AtStart, AtSelect, AtReceive, Returned_nil}" and "\<not> jobs_cancelled New"
    and "done_sent New = []"
    by (simp_all add: New_def)
  from Shutdown_run_invariant[OF this, of es] show ?thesis by auto
qed

text \<open>
  Claim C2, at the input where the code departs from it: the timeout fires while the
  workers are still busy. The claim has \<^verbatim>\<open>Shutdown\<close> cancel the jobs context, wait for
  the workers and return the timeout error. The code stays at the receive of line 87
  with the jobs context not cancelled, however often it is scheduled; when the workers
  drain on their own it returns nil.
\<close>

theorem Shutdown_timeout_blocks:
  "Shutdown_run [Sched False, Timeout, Sched False, Sched False, Sched False] New =
     \<lparr>pc = AtReceive, polling_cancelled = True, jobs_cancelled = False,
      done_sent = [], done_closed = False, ctx_done = True\<rparr> \<and>
   Shutdown_run [Sched False, Timeout, Sched False, Sched False, Sched False, Drained, Sched False]
       New =
     \<lparr>pc = Returned_nil, polling_cancelled = True, jobs_cancelled = False,
      done_sent = [], done_closed = True, ctx_done = True\<rparr>"
  by (simp add: New_def receive_done_def)

section \<open>Properties of the parser: stop-commands\<close>

lemma takeWhile_cmd_char_append:
  assumes "\<forall>c \<in> set name. cmd_char c"
  shows "takeWhile cmd_char (name @ CHR '':'' # rest) = name"
    and "dropWhile cmd_char (name @ CHR '':'' # rest) = CHR '':'' # rest"
  using assms by (induction name) (auto simp: cmd_char_def)

lemma FindStringSubmatch_plain_command:
  assumes "name \<noteq> []" and "\<forall>c \<in> set name. cmd_char c" and "CHR 0x0A \<notin> set v"
  shows "FindStringSubmatch (''::'' @ name @ ''::'' @ v) = Some (name, [], v)"
proof -
  have t: "takeWhile cmd_char (name @ CHR '':'' # CHR '':'' # v) = name"
    and d: "dropWhile cmd_char (name @ CHR '':'' # CHR '':'' # v) = CHR '':'' # CHR '':'' # v"
    using assms(2) by (rule takeWhile_cmd_char_append)+
  have "FindStringSubmatch (CHR '':'' # CHR '':'' # (name @ CHR '':'' # CHR '':'' # v))
          = Some (name, [], v)"
    unfolding FindStringSubmatch_def list.case Let_def t d
    using assms(1,3) by simp
  then show ?thesis by simp
qed

lemma FindStringSubmatch_stop_commands:
  "CHR 0x0A \<notin> set s \<Longrightarrow>
   FindStringSubmatch (''::stop-commands::'' @ s) = Some (''stop-commands'', [], s)"
  using FindStringSubmatch_plain_command[of "''stop-commands''" s]
  by (simp add: cmd_char_def)

lemma FindStringSubmatch_add_mask:
  "CHR 0x0A \<notin> set v \<Longrightarrow>
   FindStringSubmatch (''::add-mask::'' @ v) = Some (''add-mask'', [], v)"
  using FindStringSubmatch_plain_command[of "''add-mask''" v]
  by (simp add: cmd_char_def)

lemma parseLogRow_not_command:
  "command_of entry = None \<Longrightarrow> parseLogRow entry r = Inr (Some (plain_row entry r), r)"
  by (simp add: parseLogRow_def command_of_def plain_row_def Let_def)

lemma parseLogRow_stopped:
  assumes "stopCommandEndToken r \<noteq> ''''" and "command_of entry = Some command"
    and "command \<noteq> stopCommandEndToken r"
  shows "parseLogRow entry r = Inr (Some (plain_row entry r), r)"
  using assms
  by (auto simp: parseLogRow_def command_of_def plain_row_def handleCommand_def Let_def)

lemma parseLogRow_stop_commands:
  assumes "stopCommandEndToken r = ''''"
    and "FindStringSubmatch (TrimRightFunc (Message entry)) = Some (''stop-commands'', p, s)"
  shows "parseLogRow entry r = Inr (None, r\<lparr>stopCommandEndToken := s\<rparr>)"
  using assms by (simp add: parseLogRow_def handleCommand_def Let_def)

lemma parseLogRow_resume:
  assumes "stopCommandEndToken r = s" and "s \<noteq> ''''" and "s \<notin> set builtin_commands"
    and "command_of entry = Some s"
  shows "parseLogRow entry r = Inr (None, r\<lparr>stopCommandEndToken := ''''\<rparr>)"
  using assms
  by (auto simp: parseLogRow_def command_of_def handleCommand_def builtin_commands_def Let_def)

lemma parseLogRows_stopped:
  assumes "stopCommandEndToken r \<noteq> ''''"
    and "\<forall>entry \<in> set entries. command_of entry \<noteq> Some (stopCommandEndToken r)"
  shows "parseLogRows entries r = Inr (map (\<lambda>entry. Some (plain_row entry r)) entries, r)"
  using assms(2)
proof (induction entries)
  case Nil
  show ?case by simp
next
  case (Cons entry entries)
  have "parseLogRow entry r = Inr (Some (plain_row entry r), r)"
  proof (cases "command_of entry")
    case None
    then show ?thesis by (rule parseLogRow_not_command)
  next
    case (Some command)
    with Cons.prems have "command \<noteq> stopCommandEndToken r" by auto
    with assms(1) Some show ?thesis by (rule parseLogRow_stopped)
  qed
  moreover from Cons have
    "parseLogRows entries r = Inr (map (\<lambda>entry. Some (plain_row entry r)) entries, r)" by simp
  ultimately show ?case by simp
qed

text \<open>
  Claim C5, as the code has it. Outside a scope, the line \<open>::stop-commands::s\<close> produces no
  row and records \<open>s\<close> as the stop token; an empty \<open>s\<close> is the value of "no token", so
  no scope starts. While a non-empty token \<open>s\<close> is set, every line that is not a command
  named \<open>s\<close> is emitted as its own content after redaction, and the reporter does not
  change. A command named \<open>s\<close> then clears the token and produces no row, provided \<open>s\<close>
  is not one of the names the switch tests before the token.
\<close>

theorem stop_commands_scope:
  "(stopCommandEndToken r = '''' \<and> TrimRightFunc (Message entry0) = ''::stop-commands::'' @ s \<and>
    CHR 0x0A \<notin> set s \<longrightarrow>
      parseLogRow entry0 r = Inr (None, r\<lparr>stopCommandEndToken := s\<rparr>)) \<and>
   (s \<noteq> '''' \<and> stopCommandEndToken r = s \<longrightarrow>
      (\<forall>entries. (\<forall>entry \<in> set entries. command_of entry \<noteq> Some s) \<longrightarrow>
         parseLogRows entries r = Inr (map (\<lambda>entry. Some (plain_row entry r)) entries, r))) \<and>
   (s \<noteq> '''' \<and> s \<notin> set builtin_commands \<and> stopCommandEndToken r = s \<longrightarrow>
      (\<forall>entry. command_of entry = Some s \<longrightarrow>
         parseLogRow entry r = Inr (None, r\<lparr>stopCommandEndToken := ''''\<rparr>)))"
proof (intro conjI impI allI)
  assume "stopCommandEndToken r = '''' \<and>
    TrimRightFunc (Message entry0) = ''::stop-commands::'' @ s \<and> CHR 0x0A \<notin> set s"
  then show "parseLogRow entry0 r = Inr (None, r\<lparr>stopCommandEndToken := s\<rparr>)"
    using FindStringSubmatch_stop_commands[of s]
    by (intro parseLogRow_stop_commands[where p = "[]"]) simp_all
next
  fix entries
  assume "s \<noteq> '''' \<and> stopCommandEndToken r = s"
    and "\<forall>entry \<in> set entries. command_of entry \<noteq> Some s"
  then show "parseLogRows entries r = Inr (map (\<lambda>entry. Some (plain_row entry r)) entries, r)"
    by (intro parseLogRows_stopped) simp_all
next
  fix entry
  assume "s \<noteq> '''' \<and> s \<notin> set builtin_commands \<and> stopCommandEndToken r = s"
    and "command_of entry = Some s"
  then show "parseLogRow entry r = Inr (None, r\<lparr>stopCommandEndToken := ''''\<rparr>)"
    by (intro parseLogRow_resume[where s = s]) simp_all
qed

theorem stop_commands_scope_witness:
  "parseLogRow (line 1 ''::stop-commands::T'') zero_Reporter
     = Inr (None, zero_Reporter\<lparr>stopCommandEndToken := ''T''\<rparr>) \<and>
   parseLogRows [line 2 ''::add-mask::bar'', line 3 ''::debug::x'', line 4 ''T'']
       (zero_Reporter\<lparr>stopCommandEndToken := ''T''\<rparr>)
     = Inr ([Some \<lparr>Time = 2, Content = ''::add-mask::bar''\<rparr>,
             Some \<lparr>Time = 3, Content = ''::debug::x''\<rparr>,
             Some \<lparr>Time = 4, Content = ''T''\<rparr>],
            zero_Reporter\<lparr>stopCommandEndToken := ''T''\<rparr>) \<and>
   parseLogRow (line 5 ''::T::'') (zero_Reporter\<lparr>stopCommandEndToken := ''T''\<rparr>)
     = Inr (None, zero_Reporter)"
proof -
  let ?r = "zero_Reporter\<lparr>stopCommandEndToken := ''T''\<rparr>"
  let ?es = "[line 2 ''::add-mask::bar'', line 3 ''::debug::x'', line 4 ''T'']"
  have a: "stopCommandEndToken zero_Reporter = '''' \<and>
    TrimRightFunc (Message (line 1 ''::stop-commands::T'')) = ''::stop-commands::'' @ ''T'' \<and>
    CHR 0x0A \<notin> set ''T''"
    by code_simp
  have b: "''T'' \<noteq> '''' \<and> stopCommandEndToken ?r = ''T''"
    by (simp add: zero_Reporter_def)
  have b': "\<forall>entry \<in> set ?es. command_of entry \<noteq> Some ''T''"
    by code_simp
  have c: "''T'' \<noteq> '''' \<and> ''T'' \<notin> set builtin_commands \<and> stopCommandEndToken ?r = ''T''"
    by (simp add: zero_Reporter_def builtin_commands_def)
  have c': "command_of (line 5 ''::T::'') = Some ''T''"
    by code_simp
  have rows: "map (\<lambda>entry. Some (plain_row entry ?r)) ?es =
      [Some \<lparr>Time = 2, Content = ''::add-mask::bar''\<rparr>,
       Some \<lparr>Time = 3, Content = ''::debug::x''\<rparr>,
       Some \<lparr>Time = 4, Content = ''T''\<rparr>]"
    by code_simp
  have z: "?r\<lparr>stopCommandEndToken := ''''\<rparr> = zero_Reporter"
    by (simp add: zero_Reporter_def)
  from stop_commands_scope[of zero_Reporter "line 1 ''::stop-commands::T''" "''T''",
         THEN conjunct1, rule_format, OF a]
       stop_commands_scope[of ?r _ "''T''", THEN conjunct2, THEN conjunct1, THEN mp, OF b,
         THEN spec, of ?es, THEN mp, OF b']
       stop_commands_scope[of ?r _ "''T''", THEN conjunct2, THEN conjunct2, rule_format, OF c c']
  show ?thesis by (simp only: rows z)
qed

text \<open>
  Where the code departs from claim C5 as stated. With the token \<open>notice\<close>, the line
  \<open>::notice::x\<close> (its name equals the token) is emitted as a row and the token stays. With
  an empty token, the later \<open>::add-mask::x\<close> (its name differs from the token) is not
  emitted but takes effect: the next row is redacted.
\<close>

theorem stop_commands_counterexample:
  "parseLogRows [line 1 ''::stop-commands::notice'', line 2 ''::notice::x''] zero_Reporter
     = Inr ([None, Some \<lparr>Time = 2, Content = ''::notice::x''\<rparr>],
            zero_Reporter\<lparr>stopCommandEndToken := ''notice''\<rparr>) \<and>
   parseLogRows [line 1 ''::stop-commands::'', line 2 ''::add-mask::x'', line 3 ''x'']
       zero_Reporter
     = Inr ([None, None, Some \<lparr>Time = 3, Content = ''***''\<rparr>],
            zero_Reporter\<lparr>oldnew := [''x'', ''***''], logReplacer := [(''x'', ''***'')]\<rparr>)"
  by code_simp

section \<open>Properties of redaction\<close>

lemma all_stars_mem: "all_stars tbl \<Longrightarrow> (old, new) \<in> set tbl \<Longrightarrow> new = ''***''"
  by (auto simp: all_stars_def list_all_iff)

lemma lookup_None:
  "lookup tbl s b = None \<Longrightarrow> (old, new) \<in> set tbl \<Longrightarrow> old \<noteq> [] \<Longrightarrow> \<not> prefix old s"
  by (induction tbl) (auto split: if_splits)

lemma lookup_Some:
  "lookup tbl s b = Some (val, n) \<Longrightarrow> \<exists>old. (old, val) \<in> set tbl \<and> n = length old \<and> prefix old s"
  by (induction tbl) (auto split: if_splits)

lemma lookup_no_prefix:
  "\<forall>(old, new) \<in> set tbl. \<not> prefix old s \<Longrightarrow> lookup tbl s b = None"
  by (induction tbl) auto

lemma prefix_stars_free:
  assumes "CHR ''*'' \<notin> set k" and "prefix k (''***'' @ t)"
  shows "k = []"
  using assms by (cases k) auto

lemma sublist_stars_free:
  assumes "CHR ''*'' \<notin> set k" and "k \<noteq> []" and "sublist k (''***'' @ t)"
  shows "sublist k t"
  using assms by (auto simp: sublist_Cons_right prefix_Cons)

lemma Replace_from_prefix:
  "all_stars tbl \<Longrightarrow> CHR ''*'' \<notin> set k \<Longrightarrow> prefix k (Replace_from tbl b s) \<Longrightarrow> prefix k s"
proof (induction tbl b s arbitrary: k rule: Replace_from.induct)
  case (1 tbl prevMatchEmpty s)
  show ?case
  proof (cases "lookup tbl s prevMatchEmpty")
    case None
    show ?thesis
    proof (cases s)
      case Nil
      with None "1.prems" show ?thesis by (simp add: Replace_from_None)
    next
      case (Cons c cs)
      show ?thesis
      proof (cases k)
        case Nil
        then show ?thesis by simp
      next
        case k: (Cons x k')
        from "1.prems"(3) None Cons k have x: "x = c" and p: "prefix k' (Replace_from tbl False cs)"
          by (simp_all add: Replace_from_None)
        from "1.prems"(2) k have "CHR ''*'' \<notin> set k'" by simp
        from "1.IH"(1)[OF None Cons "1.prems"(1) this p] have "prefix k' cs" .
        with x k Cons show ?thesis by simp
      qed
    qed
  next
    case (Some a)
    obtain val n where a: "a = (val, n)" by (cases a)
    from lookup_Some[OF Some[unfolded a]] "1.prems"(1) have v: "val = ''***''"
      by (auto dest: all_stars_mem)
    from "1.prems"(3) Some a v have "\<exists>t. prefix k (''***'' @ t)"
      by (auto simp: Replace_from_Some split: if_splits)
    with "1.prems"(2) have "k = []" by (auto dest: prefix_stars_free)
    then show ?thesis by simp
  qed
qed

lemma Replace_from_no_mask:
  "all_stars tbl \<Longrightarrow> (k, new) \<in> set tbl \<Longrightarrow> k \<noteq> [] \<Longrightarrow> CHR ''*'' \<notin> set k \<Longrightarrow>
   \<not> sublist k (Replace_from tbl b s)"
proof (induction tbl b s rule: Replace_from.induct)
  case (1 tbl prevMatchEmpty s)
  show ?case
  proof (cases "lookup tbl s prevMatchEmpty")
    case None
    show ?thesis
    proof (cases s)
      case Nil
      with None "1.prems" show ?thesis by (simp add: Replace_from_None)
    next
      case (Cons c cs)
      have r: "Replace_from tbl prevMatchEmpty s = c # Replace_from tbl False cs"
        using None Cons by (simp add: Replace_from_None)
      have "\<not> prefix k (c # Replace_from tbl False cs)"
      proof
        assume "prefix k (c # Replace_from tbl False cs)"
        with r have "prefix k (Replace_from tbl prevMatchEmpty s)" by simp
        from Replace_from_prefix[OF "1.prems"(1,4) this] have "prefix k s" .
        with lookup_None[OF None "1.prems"(2,3)] show False by simp
      qed
      moreover have "\<not> sublist k (Replace_from tbl False cs)"
        by (rule "1.IH"(1)[OF None Cons "1.prems"])
      ultimately show ?thesis by (simp add: r sublist_Cons_right)
    qed
  next
    case (Some a)
    obtain val n where a: "a = (val, n)" by (cases a)
    from lookup_Some[OF Some[unfolded a]] "1.prems"(1) have v: "val = ''***''"
      by (auto dest: all_stars_mem)
    show ?thesis
    proof (cases "n = 0")
      case True
      have "\<not> sublist k (Replace_from tbl True s)"
        by (rule "1.IH"(2)[OF Some a[symmetric] True "1.prems"])
      moreover have "Replace_from tbl prevMatchEmpty s = ''***'' @ Replace_from tbl True s"
        using Some a v True by (simp add: Replace_from_Some)
      ultimately show ?thesis
        using sublist_stars_free[OF "1.prems"(4,3)] by metis
    next
      case False
      have "\<not> sublist k (Replace_from tbl False (drop n s))"
        by (rule "1.IH"(3)[OF Some a[symmetric] False "1.prems"])
      moreover have "Replace_from tbl prevMatchEmpty s = ''***'' @ Replace_from tbl False (drop n s)"
        using Some a v False by (simp add: Replace_from_Some)
      ultimately show ?thesis
        using sublist_stars_free[OF "1.prems"(4,3)] by metis
    qed
  qed
qed

lemma Replace_from_id:
  "\<forall>(old, new) \<in> set tbl. \<not> sublist old s \<Longrightarrow> Replace_from tbl b s = s"
proof (induction s arbitrary: b)
  case Nil
  then have "lookup tbl [] b = None" by (intro lookup_no_prefix) (auto dest: prefix_imp_sublist)
  then show ?case by (simp add: Replace_from_None)
next
  case (Cons c cs)
  then have "lookup tbl (c # cs) b = None"
    by (intro lookup_no_prefix) (auto dest: prefix_imp_sublist)
  moreover from Cons.prems have "\<forall>(old, new) \<in> set tbl. \<not> sublist old cs"
    by (auto simp: sublist_Cons_right)
  ultimately show ?case using Cons.IH by (simp add: Replace_from_None)
qed


section \<open>Properties of the UTF-8 repair\<close>

lemma first_info_cases:
  "first_info b = Some (sz, lo, hi) \<Longrightarrow> sz \<in> {2, 3, 4} \<and> 0x80 \<le> lo"
  by (auto simp: first_info_def split: if_splits)

lemma DecodeRune_size_multi:
  assumes "DecodeRune_size s = w" and "1 < w"
  shows "w \<le> length s" and "w \<le> 4"
    and "\<forall>b \<in> set (take w s). 0x80 \<le> (of_char b :: nat)"
    and "DecodeRune_size (take w s @ x) = w"
proof -
  from assms obtain s0 t where s: "s = s0 # t"
    by (cases s) (auto simp: DecodeRune_size_def)
  from assms s have hi: "\<not> (of_char s0 :: nat) < 0x80"
    by (auto simp: DecodeRune_size_def split: if_splits)
  from assms s hi obtain sz lo hi' where f: "first_info (of_char s0) = Some (sz, lo, hi')"
    by (cases "first_info (of_char s0)") (auto simp: DecodeRune_size_def)
  note fc = first_info_cases[OF f]
  from assms s hi f have l: "\<not> length s < sz"
    by (auto simp: DecodeRune_size_def split: if_splits)
  from assms s hi f l fc have w: "w = sz"
    by (auto simp: DecodeRune_size_def split: if_splits)
  from w l fc show "w \<le> length s" and "w \<le> 4" by auto
  from assms s hi f l w fc
  have b1: "lo \<le> (of_char (s ! 1) :: nat) \<and> (of_char (s ! 1) :: nat) \<le> hi'"
    and b2: "2 < sz \<longrightarrow> continuation (s ! 2)"
    and b3: "3 < sz \<longrightarrow> continuation (s ! 3)"
    by (auto simp: DecodeRune_size_def split: if_splits)
  show "\<forall>b \<in> set (take w s). 0x80 \<le> (of_char b :: nat)"
  proof
    fix b assume "b \<in> set (take w s)"
    then obtain i where i: "i < w" "i < length s" "b = s ! i"
      by (auto simp: in_set_conv_nth)
    with w fc have "i = 0 \<or> i = 1 \<or> (i = 2 \<and> 2 < sz) \<or> (i = 3 \<and> 3 < sz)" by auto
    with i s hi b1 b2 b3 fc show "0x80 \<le> (of_char b :: nat)"
      by (auto simp: continuation_def)
  qed
  define y where "y = take w s @ x"
  have n: "y ! i = s ! i" if "i < w" for i
    using that \<open>w \<le> length s\<close> by (simp add: y_def nth_append)
  have len: "\<not> length y < sz" using w l by (simp add: y_def)
  obtain t' where yc: "y = s0 # t'"
    using s w fc by (cases w) (auto simp: y_def)
  have y1: "y ! 1 = s ! 1" and y2: "2 < sz \<Longrightarrow> y ! 2 = s ! 2" and y3: "3 < sz \<Longrightarrow> y ! 3 = s ! 3"
    using n[of 1] n[of 2] n[of 3] w fc by auto
  have "DecodeRune_size y =
          (if length y < sz then 1
           else if (of_char (y ! 1) :: nat) < lo \<or> hi' < (of_char (y ! 1) :: nat) then 1
           else if sz \<le> 2 then 2
           else if \<not> continuation (y ! 2) then 1
           else if sz \<le> 3 then 3
           else if \<not> continuation (y ! 3) then 1
           else 4)"
    unfolding DecodeRune_size_def using hi f by (simp add: yc)
  also have "\<dots> = sz"
    using len b1 b2 b3 fc y1 y2 y3 by auto
  finally show "DecodeRune_size (take w s @ x) = w" by (simp add: y_def w)
qed

declare ToValidUTF8_from.simps(2) [simp del]

lemma ToValidUTF8_from_ascii:
  "(of_char c :: nat) < 0x80 \<Longrightarrow>
   ToValidUTF8_from invalid (c # cs) rep = c # ToValidUTF8_from False cs rep"
  by (simp add: ToValidUTF8_from.simps(2))

lemma ToValidUTF8_from_invalid:
  "\<not> (of_char c :: nat) < 0x80 \<Longrightarrow> DecodeRune_size (c # cs) = 1 \<Longrightarrow>
   ToValidUTF8_from invalid (c # cs) rep =
     (if invalid then [] else rep) @ ToValidUTF8_from True cs rep"
  by (simp add: ToValidUTF8_from.simps(2))

lemma ToValidUTF8_from_multi:
  "\<not> (of_char c :: nat) < 0x80 \<Longrightarrow> DecodeRune_size (c # cs) \<noteq> 1 \<Longrightarrow>
   ToValidUTF8_from invalid (c # cs) rep =
     take (DecodeRune_size (c # cs)) (c # cs)
       @ ToValidUTF8_from False (drop (DecodeRune_size (c # cs)) (c # cs)) rep"
  by (simp add: ToValidUTF8_from.simps(2))

text \<open>The three ways a non-empty string is taken apart by \<^verbatim>\<open>ToValidUTF8\<close>.\<close>

lemma ToValidUTF8_from_cases:
  assumes "s \<noteq> []"
  obtains (ascii) c cs where "s = c # cs" "(of_char c :: nat) < 0x80"
      "\<And>invalid rep. ToValidUTF8_from invalid s rep = c # ToValidUTF8_from False cs rep"
    | (invalid) c cs where "s = c # cs" "\<not> (of_char c :: nat) < 0x80"
      "\<And>invalid rep. ToValidUTF8_from invalid s rep =
          (if invalid then [] else rep) @ ToValidUTF8_from True cs rep"
    | (multi) w where "1 < w" "w \<le> length s" "DecodeRune_size s = w"
      "\<forall>b \<in> set (take w s). 0x80 \<le> (of_char b :: nat)"
      "\<And>invalid rep. ToValidUTF8_from invalid s rep =
          take w s @ ToValidUTF8_from False (drop w s) rep"
      "\<And>invalid rep x. ToValidUTF8_from invalid (take w s @ x) rep =
          take w s @ ToValidUTF8_from False x rep"
proof -
  from assms obtain c cs where s: "s = c # cs" by (cases s) auto
  show thesis
  proof (cases "(of_char c :: nat) < 0x80")
    case True
    with s show thesis by (intro ascii[of c cs]) (simp_all add: ToValidUTF8_from_ascii)
  next
    case hi: False
    show thesis
    proof (cases "DecodeRune_size s = 1")
      case True
      with s hi show thesis by (intro invalid[of c cs]) (simp_all add: ToValidUTF8_from_invalid)
    next
      case False
      define w where "w = DecodeRune_size s"
      from DecodeRune_size_pos[OF assms] False have w1: "1 < w" by (simp add: w_def)
      note m = DecodeRune_size_multi[OF w_def[symmetric] w1]
      have tk: "take w s \<noteq> []" using w1 s by (cases w) auto
      then obtain c' t' where t: "take w s = c' # t'" by (cases "take w s") auto
      with s w1 have c': "c' = c" by (cases w) auto
      have a: "ToValidUTF8_from invalid s rep = take w s @ ToValidUTF8_from False (drop w s) rep"
        for invalid rep
        using s hi False by (simp add: ToValidUTF8_from_multi w_def)
      have b: "ToValidUTF8_from invalid (take w s @ x) rep = take w s @ ToValidUTF8_from False x rep"
        for invalid rep x
      proof -
        have d: "DecodeRune_size (c # t' @ x) = w" using m(4)[of x] t c' by simp
        with w1 have "DecodeRune_size (c # t' @ x) \<noteq> 1" by simp
        moreover have "length (c # t') = w" using t c' m(1) by (metis length_take min.absorb2)
        then have "take w (c # t' @ x) = c # t'" and "drop w (c # t' @ x) = x"
          by (metis append_Cons append_eq_conv_conj)+
        ultimately show ?thesis
          using ToValidUTF8_from_multi[OF hi, of "t' @ x" invalid rep] d t c' by simp
      qed
      from w1 m(1) w_def[symmetric] m(3) a b show thesis by (rule multi)
    qed
  qed
qed

lemma ToValidUTF8_from_idem:
  "ToValidUTF8_from False (ToValidUTF8_from invalid s ''?'') ''?'' = ToValidUTF8_from invalid s ''?''"
proof (induction "length s" arbitrary: s invalid rule: less_induct)
  case less
  show ?case
  proof (cases "s = []")
    case True
    then show ?thesis by simp
  next
    case False
    then show ?thesis
    proof (cases rule: ToValidUTF8_from_cases)
      case (ascii c cs)
      with less[of cs False] show ?thesis by (simp add: ToValidUTF8_from_ascii)
    next
      case (invalid c cs)
      with less[of cs True] show ?thesis by (simp add: ToValidUTF8_from_ascii)
    next
      case (multi w)
      then have "length (drop w s) < length s" using False by simp
      from less[OF this, of False] multi(5,6) show ?thesis
        by (metis append_take_drop_id)
    qed
  qed
qed

lemma ToValidUTF8_from_prefix:
  "CHR ''?'' \<notin> set k \<Longrightarrow> prefix k (ToValidUTF8_from invalid s ''?'') \<Longrightarrow>
   (if invalid then sublist k s else prefix k s)"
proof (induction "length s" arbitrary: s invalid k rule: less_induct)
  case less
  show ?case
  proof (cases "s = []")
    case True
    with less.prems show ?thesis by simp
  next
    case False
    then show ?thesis
    proof (cases rule: ToValidUTF8_from_cases)
      case (ascii c cs)
      show ?thesis
      proof (cases k)
        case Nil
        then show ?thesis by simp
      next
        case (Cons x k')
        with less.prems ascii have x: "x = c" and p: "prefix k' (ToValidUTF8_from False cs ''?'')"
          and q: "CHR ''?'' \<notin> set k'" by simp_all
        from less.hyps[of cs k' False] ascii(1) q p have "prefix k' cs" by simp
        with x Cons ascii(1) have "prefix k s" by simp
        then show ?thesis by auto
      qed
    next
      case (invalid c cs)
      show ?thesis
      proof (cases invalid)
        case True
        with less.prems invalid have "prefix k (ToValidUTF8_from True cs ''?'')" by simp
        from less.hyps[of cs k True] invalid(1) less.prems(1) this have "sublist k cs" by simp
        with True invalid(1) show ?thesis by (simp add: sublist_Cons_right)
      next
        case False
        with less.prems invalid have "prefix k (CHR ''?'' # ToValidUTF8_from True cs ''?'')"
          by simp
        with less.prems(1) have "k = []" by (cases k) auto
        then show ?thesis by simp
      qed
    next
      case (multi w)
      from less.prems multi(5)
      have "prefix k (take w s @ ToValidUTF8_from False (drop w s) ''?'')" by simp
      then consider "prefix k (take w s)"
        | k' where "k = take w s @ k'" "prefix k' (ToValidUTF8_from False (drop w s) ''?'')"
        by (auto simp: prefix_append)
      then have "prefix k s"
      proof cases
        case 1
        then show ?thesis by (meson prefix_order.order_trans take_is_prefix)
      next
        case 2
        have "length (drop w s) < length s" using multi(1) False by simp
        moreover have "CHR ''?'' \<notin> set k'" using less.prems(1) 2(1) by simp
        ultimately have "prefix k' (drop w s)" using less.hyps[of "drop w s" k' False] 2(2) by simp
        then have "prefix (take w s @ k') (take w s @ drop w s)"
          by (simp only: same_prefix_prefix)
        then show ?thesis by (simp only: append_take_drop_id 2(1))
      qed
      then show ?thesis by auto
    qed
  qed
qed

lemma ToValidUTF8_from_sublist:
  "CHR ''?'' \<notin> set k \<Longrightarrow> sublist k (ToValidUTF8_from invalid s ''?'') \<Longrightarrow> sublist k s"
proof (induction "length s" arbitrary: s invalid rule: less_induct)
  case less
  have pre: "sublist k s'" if "prefix k (ToValidUTF8_from inv s' ''?'')" for inv s'
    using ToValidUTF8_from_prefix[OF less.prems(1) that] by (auto split: if_splits)
  show ?case
  proof (cases "s = []")
    case True
    with less.prems show ?thesis by simp
  next
    case False
    then show ?thesis
    proof (cases rule: ToValidUTF8_from_cases)
      case (ascii c cs)
      from less.prems(2) ascii(3)
      consider "prefix k (ToValidUTF8_from invalid s ''?'')"
        | "sublist k (ToValidUTF8_from False cs ''?'')"
        by (auto simp: sublist_Cons_right)
      then show ?thesis
      proof cases
        case 1
        then show ?thesis by (rule pre)
      next
        case 2
        from less.hyps[of cs False] ascii(1) less.prems(1) 2 have "sublist k cs" by simp
        with ascii(1) show ?thesis by (simp add: sublist_Cons_right)
      qed
    next
      case (invalid c cs)
      from less.prems(2) invalid(3)
      consider "prefix k (ToValidUTF8_from invalid s ''?'')"
        | "sublist k (ToValidUTF8_from True cs ''?'')"
        by (cases invalid) (auto simp: sublist_Cons_right)
      then show ?thesis
      proof cases
        case 1
        then show ?thesis by (rule pre)
      next
        case 2
        from less.hyps[of cs True] invalid(1) less.prems(1) 2 have "sublist k cs" by simp
        with invalid(1) show ?thesis by (simp add: sublist_Cons_right)
      qed
    next
      case (multi w)
      have d: "length (drop w s) < length s" using multi(1) False by simp
      from less.prems(2) multi(5)
      have "sublist k (take w s @ ToValidUTF8_from False (drop w s) ''?'')" by simp
      then consider "sublist k (take w s)"
        | "sublist k (ToValidUTF8_from False (drop w s) ''?'')"
        | k1 k2 where "k = k1 @ k2" "suffix k1 (take w s)"
            "prefix k2 (ToValidUTF8_from False (drop w s) ''?'')"
        by (auto simp: sublist_append)
      then show ?thesis
      proof cases
        case 1
        then show ?thesis
          using sublist_take sublist_order.order.trans by blast
      next
        case 2
        from less.hyps[OF d less.prems(1) 2] show ?thesis
          using sublist_drop sublist_order.order.trans by blast
      next
        case 3
        from 3(1) less.prems(1) have "CHR ''?'' \<notin> set k2" by simp
        from ToValidUTF8_from_prefix[OF this 3(3)] have "prefix k2 (drop w s)" by simp
        then obtain v where v: "drop w s = k2 @ v" by (auto simp: prefix_def)
        from 3(2) obtain u where u: "take w s = u @ k1" by (auto simp: suffix_def)
        have "s = take w s @ drop w s" by simp
        also have "\<dots> = u @ k @ v" by (simp add: u v 3(1))
        finally have "s = u @ k @ v" .
        then show ?thesis by (metis sublist_appendI)
      qed
    qed
  qed
qed

lemma ToValidUTF8_from_Nil:
  "ToValidUTF8_from False s ''?'' = [] \<Longrightarrow> s = []"
proof (rule ccontr)
  assume a: "ToValidUTF8_from False s ''?'' = []" and "s \<noteq> []"
  from this(2) show False
  proof (cases rule: ToValidUTF8_from_cases)
    case (ascii c cs)
    with a show ?thesis by simp
  next
    case (invalid c cs)
    with a show ?thesis by simp
  next
    case (multi w)
    from multi(5)[of False "''?''"] a have "take w s = []" by simp
    with multi(1) \<open>s \<noteq> []\<close> show ?thesis by simp
  qed
qed

lemma ToValidUTF8_from_last:
  "ToValidUTF8_from invalid s ''?'' \<noteq> [] \<Longrightarrow>
   last (ToValidUTF8_from invalid s ''?'') = CHR ''?'' \<or>
   (s \<noteq> [] \<and> last (ToValidUTF8_from invalid s ''?'') = last s)"
proof (induction "length s" arbitrary: s invalid rule: less_induct)
  case less
  from less.prems have ne: "s \<noteq> []" by auto
  then show ?case
  proof (cases rule: ToValidUTF8_from_cases)
    case (ascii c cs)
    show ?thesis
    proof (cases "ToValidUTF8_from False cs ''?'' = []")
      case True
      with ToValidUTF8_from_Nil[OF True] ascii show ?thesis by simp
    next
      case False
      from less.hyps[of cs False] ascii(1) False ascii(3)[of invalid "''?''"] show ?thesis
        by auto
    qed
  next
    case (invalid c cs)
    show ?thesis
    proof (cases "ToValidUTF8_from True cs ''?'' = []")
      case True
      with less.prems invalid(3)[of invalid "''?''"] show ?thesis by (cases invalid) auto
    next
      case False
      from less.hyps[of cs True] invalid(1) False invalid(3)[of invalid "''?''"] show ?thesis
        by (cases invalid) auto
    qed
  next
    case (multi w)
    have d: "length (drop w s) < length s" using multi(1) ne by simp
    show ?thesis
    proof (cases "ToValidUTF8_from False (drop w s) ''?'' = []")
      case True
      from ToValidUTF8_from_Nil[OF True] have "take w s = s" by simp
      with True multi(5)[of invalid "''?''"] ne show ?thesis by simp
    next
      case False
      from less.hyps[OF d False] False multi(5)[of invalid "''?''"] show ?thesis
        by (auto simp: last_drop)
    qed
  qed
qed

section \<open>Properties of trimming and the command pattern\<close>

lemma Replace_from_Nil:
  assumes "all_stars tbl" and "Replace_from tbl b s = []"
  shows "s = []"
proof (cases "lookup tbl s b")
  case None
  with assms(2) show ?thesis by (cases s) (simp_all add: Replace_from_None)
next
  case (Some a)
  obtain val n where a: "a = (val, n)" by (cases a)
  from lookup_Some[OF Some[unfolded a]] assms(1) have "val = ''***''"
    by (auto dest: all_stars_mem)
  with assms(2) Some a show ?thesis by (simp add: Replace_from_Some split: if_splits)
qed

lemma Replace_from_last:
  "all_stars tbl \<Longrightarrow> Replace_from tbl b s \<noteq> [] \<Longrightarrow>
   last (Replace_from tbl b s) = CHR ''*'' \<or> (s \<noteq> [] \<and> last (Replace_from tbl b s) = last s)"
proof (induction tbl b s rule: Replace_from.induct)
  case (1 tbl prevMatchEmpty s)
  show ?case
  proof (cases "lookup tbl s prevMatchEmpty")
    case None
    show ?thesis
    proof (cases s)
      case Nil
      with None "1.prems" show ?thesis by (simp add: Replace_from_None)
    next
      case (Cons c cs)
      have r: "Replace_from tbl prevMatchEmpty s = c # Replace_from tbl False cs"
        using None Cons by (simp add: Replace_from_None)
      show ?thesis
      proof (cases "Replace_from tbl False cs = []")
        case True
        from Replace_from_Nil[OF "1.prems"(1) True] r True Cons show ?thesis by simp
      next
        case False
        from "1.IH"(1)[OF None Cons "1.prems"(1) False] r False Cons show ?thesis by auto
      qed
    qed
  next
    case (Some a)
    obtain val n where a: "a = (val, n)" by (cases a)
    from lookup_Some[OF Some[unfolded a]] "1.prems"(1) have v: "val = ''***''"
      and n: "n \<le> length s"
      by (auto dest: all_stars_mem simp: prefix_length_le)
    show ?thesis
    proof (cases "n = 0")
      case True
      have r: "Replace_from tbl prevMatchEmpty s = ''***'' @ Replace_from tbl True s"
        using Some a v True by (simp add: Replace_from_Some)
      show ?thesis
      proof (cases "Replace_from tbl True s = []")
        case True
        with r show ?thesis by simp
      next
        case False
        from "1.IH"(2)[OF Some a[symmetric] True "1.prems"(1) False] r False show ?thesis
          by auto
      qed
    next
      case False
      have r: "Replace_from tbl prevMatchEmpty s = ''***'' @ Replace_from tbl False (drop n s)"
        using Some a v False by (simp add: Replace_from_Some)
      show ?thesis
      proof (cases "Replace_from tbl False (drop n s) = []")
        case True
        with r show ?thesis by simp
      next
        case ne: False
        from "1.IH"(3)[OF Some a[symmetric] False "1.prems"(1) ne] r ne show ?thesis
          by (auto simp: last_drop)
      qed
    qed
  qed
qed

text \<open>A string that \<^verbatim>\<open>TrimRightFunc\<close> leaves as it is: it does not end in CR or LF.\<close>

lemma TrimRightFunc_id_iff:
  "TrimRightFunc s = s \<longleftrightarrow> s = [] \<or> (last s \<noteq> CHR 0x0D \<and> last s \<noteq> CHR 0x0A)"
proof (cases s rule: rev_cases)
  case Nil
  then show ?thesis by (simp add: TrimRightFunc_def)
next
  case (snoc ys y)
  show ?thesis
  proof (cases "y = CHR 0x0D \<or> y = CHR 0x0A")
    case True
    have "length (TrimRightFunc s) \<le> length ys"
      using True snoc length_dropWhile_le[of "\<lambda>c. c = CHR 0x0D \<or> c = CHR 0x0A" "rev ys"]
      by (auto simp: TrimRightFunc_def)
    then have "TrimRightFunc s \<noteq> s" using snoc by auto
    with True snoc show ?thesis by auto
  next
    case False
    with snoc show ?thesis by (simp add: TrimRightFunc_def)
  qed
qed

lemma TrimRightFunc_idem: "TrimRightFunc (TrimRightFunc s) = TrimRightFunc s"
proof -
  have "dropWhile P (dropWhile P xs) = dropWhile P xs" for P and xs :: string
    by (induction xs) auto
  then show ?thesis by (simp add: TrimRightFunc_def)
qed

lemma last_sep_Some: "last_sep t = Some (p, v) \<Longrightarrow> t = p @ ''::'' @ v"
proof (induction t arbitrary: p v)
  case Nil
  then show ?case by simp
next
  case (Cons c cs)
  show ?case
  proof (cases "last_sep cs")
    case None
    with Cons.prems
    have e: "(case cs of [] \<Rightarrow> None
              | d # v' \<Rightarrow> if c = CHR '':'' \<and> d = CHR '':'' then Some ([], v') else None)
             = Some (p, v)"
      by (simp only: last_sep.simps option.case)
    then obtain d where "cs = d # v" "c = CHR '':''" "d = CHR '':''" "p = []"
      by (cases cs) (simp_all split: if_splits)
    then show ?thesis by simp
  next
    case (Some a)
    obtain p' v' where a: "a = (p', v')" by (cases a)
    with Cons.prems Some have "p = c # p'" "v = v'" by simp_all
    with Cons.IH[OF Some[unfolded a]] show ?thesis by simp
  qed
qed

lemma FindStringSubmatch_colons:
  "FindStringSubmatch (CHR '':'' # CHR '':'' # s) =
     (if takeWhile cmd_char s = [] then None
      else
        (case dropWhile cmd_char s of
           [] \<Rightarrow> None
         | c # t \<Rightarrow>
             if c = CHR '' '' then
               (if CHR 0x0A \<in> set t then None
                else
                  (case last_sep t of
                     None \<Rightarrow> None
                   | Some (p, v) \<Rightarrow> Some (takeWhile cmd_char s, CHR '' '' # p, v)))
             else
               (case t of
                  [] \<Rightarrow> None
                | d # v \<Rightarrow>
                    if d = CHR '':'' \<and> CHR 0x0A \<notin> set v
                    then Some (takeWhile cmd_char s, [], v) else None)))"
  by (simp add: FindStringSubmatch_def Let_def)

lemma FindStringSubmatch_shape:
  assumes "FindStringSubmatch content = Some m"
  shows "\<exists>s. content = CHR '':'' # CHR '':'' # s"
proof (cases content)
  case Nil
  with assms show ?thesis by (simp add: FindStringSubmatch_def)
next
  case c1: (Cons c1 l)
  show ?thesis
  proof (cases l)
    case Nil
    with assms c1 show ?thesis by (simp add: FindStringSubmatch_def)
  next
    case (Cons c2 s)
    with assms c1 have "c1 = CHR '':'' \<and> c2 = CHR '':''"
      by (simp add: FindStringSubmatch_def split: if_splits)
    with c1 Cons show ?thesis by simp
  qed
qed

lemma FindStringSubmatch_Some:
  assumes "FindStringSubmatch content = Some (command, parameters, val)"
  shows "\<exists>s x. content = ''::'' @ s \<and> command = takeWhile cmd_char s \<and> command \<noteq> [] \<and>
               dropWhile cmd_char s = x @ val \<and> CHR 0x0A \<notin> set val"
proof -
  from FindStringSubmatch_shape[OF assms] obtain s where c: "content = CHR '':'' # CHR '':'' # s"
    by blast
  define rest where "rest = dropWhile cmd_char s"
  define name where "name = takeWhile cmd_char s"
  note eq = assms[unfolded c FindStringSubmatch_colons, folded rest_def name_def]
  from eq have ne: "name \<noteq> []" by (auto split: if_splits)
  with eq have eq2: "(case rest of
           [] \<Rightarrow> None
         | c # t \<Rightarrow>
             if c = CHR '' '' then
               (if CHR 0x0A \<in> set t then None
                else
                  (case last_sep t of
                     None \<Rightarrow> None
                   | Some (p, v) \<Rightarrow> Some (name, CHR '' '' # p, v)))
             else
               (case t of
                  [] \<Rightarrow> None
                | d # v \<Rightarrow>
                    if d = CHR '':'' \<and> CHR 0x0A \<notin> set v
                    then Some (name, [], v) else None)) = Some (command, parameters, val)"
    by simp
  then obtain x t where r: "rest = x # t" by (cases rest) auto
  have "name = command \<and> (\<exists>y. rest = y @ val \<and> CHR 0x0A \<notin> set val)"
  proof (cases "x = CHR '' ''")
    case True
    with eq2 r have nl: "CHR 0x0A \<notin> set t"
      and "(case last_sep t of None \<Rightarrow> None
            | Some (p, v) \<Rightarrow> Some (name, CHR '' '' # p, v)) = Some (command, parameters, val)"
      by (auto split: if_splits)
    then obtain p where "last_sep t = Some (p, val)" and n: "name = command"
      by (cases "last_sep t") auto
    from last_sep_Some[OF this(1)] have t: "t = p @ ''::'' @ val" .
    with r have "rest = (x # p @ ''::'') @ val" by simp
    moreover from nl t have "CHR 0x0A \<notin> set val" by simp
    ultimately show ?thesis using n by blast
  next
    case False
    with eq2 r have "(case t of
                  [] \<Rightarrow> None
                | d # v \<Rightarrow>
                    if d = CHR '':'' \<and> CHR 0x0A \<notin> set v
                    then Some (name, [], v) else None) = Some (command, parameters, val)"
      by simp
    then obtain d where "t = d # val" and "CHR 0x0A \<notin> set val" and n: "name = command"
      by (cases t) (auto split: if_splits)
    with r have "rest = [x, d] @ val" by simp
    with \<open>CHR 0x0A \<notin> set val\<close> n show ?thesis by blast
  qed
  with c ne show ?thesis by (auto simp: rest_def name_def)
qed

lemma FindStringSubmatch_suffix:
  assumes "FindStringSubmatch content = Some (command, parameters, val)"
  shows "suffix val content"
proof -
  from FindStringSubmatch_Some[OF assms] obtain s x where
    c: "content = ''::'' @ s" and d: "dropWhile cmd_char s = x @ val" by blast
  have "s = takeWhile cmd_char s @ dropWhile cmd_char s" by simp
  with d have "s = (takeWhile cmd_char s @ x) @ val" by simp
  with c have "content = (''::'' @ takeWhile cmd_char s @ x) @ val" by simp
  then show ?thesis unfolding suffix_def by blast
qed

section \<open>Properties of the parser: rows and idempotence\<close>

lemma handleCommand_Some:
  assumes "handleCommand content command parameters val r = Inr (Some out, r')"
  shows "r' = r \<and> out = (if command = ''debug'' \<and>
             \<not> (stopCommandEndToken r \<noteq> '''' \<and> command \<noteq> stopCommandEndToken r)
          then val else content)"
proof (cases "stopCommandEndToken r \<noteq> '''' \<and> command \<noteq> stopCommandEndToken r")
  case True
  with assms show ?thesis by (simp add: handleCommand_def)
next
  case False
  note nf = False
  show ?thesis
  proof (cases "command = ''add-mask''")
    case True
    with nf assms show ?thesis by (auto simp: handleCommand_def split: sum.splits)
  next
    case False
    note na = False
    show ?thesis
    proof (cases "command = ''debug''")
      case True
      with nf na assms show ?thesis by (simp add: handleCommand_def split: if_splits)
    next
      case False
      with nf na assms show ?thesis by (simp add: handleCommand_def split: if_splits)
    qed
  qed
qed

lemma parseLogRow_row:
  assumes "parseLogRow entry r = Inr (Some row, r')"
  shows "r' = r \<and>
         row = \<lparr>Time = EntryTime entry,
                 Content = ToValidUTF8 (Replace (logReplacer r) (emitted_text entry r)) ''?''\<rparr>"
proof (cases "FindStringSubmatch (TrimRightFunc (Message entry))")
  case None
  with assms show ?thesis
    by (auto simp: parseLogRow_def emitted_text_def Let_def)
next
  case (Some m)
  obtain command parameters val where m: "m = (command, parameters, val)" by (cases m)
  let ?content = "TrimRightFunc (Message entry)"
  from assms Some m have
    "(case handleCommand ?content command parameters val r of
             Inl p \<Rightarrow> Inl p
           | Inr (None, r') \<Rightarrow> Inr (None, r')
           | Inr (Some out, r') \<Rightarrow>
               Inr (Some \<lparr>Time = EntryTime entry,
                          Content = ToValidUTF8 (Replace (logReplacer r') out) ''?''\<rparr>, r'))
     = Inr (Some row, r')"
    by (simp add: parseLogRow_def Let_def)
  then obtain out where
      h: "handleCommand ?content command parameters val r = Inr (Some out, r')"
      and row: "row = \<lparr>Time = EntryTime entry,
                         Content = ToValidUTF8 (Replace (logReplacer r') out) ''?''\<rparr>"
    by (auto split: sum.splits option.splits prod.splits)
  from handleCommand_Some[OF h] row Some m show ?thesis
    by (simp add: emitted_text_def Let_def)
qed

lemma emitted_text_trimmed: "TrimRightFunc (emitted_text entry r) = emitted_text entry r"
proof -
  define content where "content = TrimRightFunc (Message entry)"
  have c: "TrimRightFunc content = content" by (simp add: content_def TrimRightFunc_idem)
  show ?thesis
  proof (cases "FindStringSubmatch content")
    case None
    with c show ?thesis by (simp add: emitted_text_def content_def[symmetric] Let_def)
  next
    case (Some m)
    obtain command parameters val where m: "m = (command, parameters, val)" by (cases m)
    from FindStringSubmatch_suffix[OF Some[unfolded m]] have "suffix val content" .
    then obtain x where x: "content = x @ val" by (auto simp: suffix_def)
    have "TrimRightFunc val = val"
    proof (cases "val = []")
      case True
      then show ?thesis by (simp add: TrimRightFunc_id_iff)
    next
      case False
      with x have "last val = last content" "content \<noteq> []" by simp_all
      with c show ?thesis by (simp add: TrimRightFunc_id_iff)
    qed
    with c Some m show ?thesis by (simp add: emitted_text_def content_def[symmetric] Let_def)
  qed
qed

lemma redacted_trimmed:
  assumes "all_stars tbl" and "TrimRightFunc t = t"
  shows "TrimRightFunc (ToValidUTF8 (Replace tbl t) ''?'') = ToValidUTF8 (Replace tbl t) ''?''"
proof -
  define x where "x = Replace_from tbl False t"
  define y where "y = ToValidUTF8_from False x ''?''"
  have t: "t = [] \<or> (last t \<noteq> CHR 0x0D \<and> last t \<noteq> CHR 0x0A)"
    using assms(2) by (simp add: TrimRightFunc_id_iff)
  have x: "x = [] \<or> (last x \<noteq> CHR 0x0D \<and> last x \<noteq> CHR 0x0A)"
  proof (cases "x = []")
    case True
    then show ?thesis by simp
  next
    case False
    from Replace_from_last[OF assms(1) False[unfolded x_def]] t show ?thesis
      unfolding x_def by auto
  qed
  have "y = [] \<or> (last y \<noteq> CHR 0x0D \<and> last y \<noteq> CHR 0x0A)"
  proof (cases "y = []")
    case True
    then show ?thesis by simp
  next
    case False
    from ToValidUTF8_from_last[OF False[unfolded y_def]] x show ?thesis
      unfolding y_def by auto
  qed
  then have "TrimRightFunc y = y" by (simp add: TrimRightFunc_id_iff)
  then show ?thesis by (simp add: y_def x_def ToValidUTF8_def Replace_def)
qed

lemma parseLogRow_passes_through:
  assumes "passes_through (TrimRightFunc (Message entry)) r"
  shows "parseLogRow entry r = Inr (Some (plain_row entry r), r)"
proof (cases "FindStringSubmatch (TrimRightFunc (Message entry))")
  case None
  then have "command_of entry = None" by (simp add: command_of_def)
  then show ?thesis by (rule parseLogRow_not_command)
next
  case (Some m)
  obtain command parameters val where m: "m = (command, parameters, val)" by (cases m)
  from assms Some m
  have "(stopCommandEndToken r \<noteq> '''' \<and> command \<noteq> stopCommandEndToken r) \<or>
          command \<in> set [''notice'', ''warning'', ''error'', ''group'', ''endgroup''] \<or>
          (command \<notin> set builtin_commands \<and> command \<noteq> stopCommandEndToken r)"
    by (simp add: passes_through_def)
  then have "handleCommand (TrimRightFunc (Message entry)) command parameters val r =
               Inr (Some (TrimRightFunc (Message entry)), r)"
  proof (elim disjE)
    assume "stopCommandEndToken r \<noteq> '''' \<and> command \<noteq> stopCommandEndToken r"
    then show ?thesis by (simp add: handleCommand_def)
  next
    assume "command \<in> set [''notice'', ''warning'', ''error'', ''group'', ''endgroup'']"
    then consider "command = ''notice''" | "command = ''warning''" | "command = ''error''"
      | "command = ''group''" | "command = ''endgroup''" by auto
    then show ?thesis
      by cases (simp_all add: handleCommand_def)
  next
    assume "command \<notin> set builtin_commands \<and> command \<noteq> stopCommandEndToken r"
    then have "command \<noteq> ''add-mask''" "command \<noteq> ''debug''" "command \<noteq> ''notice''"
      "command \<noteq> ''warning''" "command \<noteq> ''error''" "command \<noteq> ''group''"
      "command \<noteq> ''endgroup''" "command \<noteq> ''stop-commands''"
      "command \<noteq> stopCommandEndToken r"
      by (simp_all add: builtin_commands_def)
    then show ?thesis by (simp add: handleCommand_def) auto
  qed
  with Some m show ?thesis by (simp add: parseLogRow_def plain_row_def Let_def)
qed

lemma redacted_fixed:
  assumes "all_stars tbl"
    and "\<forall>(old, new) \<in> set tbl. old \<noteq> [] \<and> CHR ''*'' \<notin> set old \<and> CHR ''?'' \<notin> set old"
  shows "ToValidUTF8 (Replace tbl (ToValidUTF8 (Replace tbl t) ''?'')) ''?'' =
           ToValidUTF8 (Replace tbl t) ''?''"
proof -
  define c where "c = ToValidUTF8_from False (Replace_from tbl False t) ''?''"
  have "\<forall>(old, new) \<in> set tbl. \<not> sublist old c"
  proof (clarify)
    fix old new
    assume m: "(old, new) \<in> set tbl" and s: "sublist old c"
    from assms(2) m have o: "old \<noteq> []" "CHR ''*'' \<notin> set old" "CHR ''?'' \<notin> set old" by auto
    from ToValidUTF8_from_sublist[OF o(3) s[unfolded c_def]]
    have "sublist old (Replace_from tbl False t)" .
    with Replace_from_no_mask[OF assms(1) m o(1) o(2)] show False by simp
  qed
  then have "Replace_from tbl False c = c" by (rule Replace_from_id)
  moreover have "ToValidUTF8_from False c ''?'' = c"
    unfolding c_def by (rule ToValidUTF8_from_idem)
  ultimately show ?thesis by (simp add: c_def ToValidUTF8_def Replace_def)
qed

text \<open>
  Claim C9, amended. Let the parser produce a row from a state whose masks are all
  non-empty and free of the characters \<open>*\<close> and \<open>?\<close>. If the row's content, read as a
  line, is one the command handling passes on as it is (\<open>passes_through\<close>), then parsing
  that content again in the same state gives the same content and leaves the state as it
  is: trimming, redaction and the UTF-8 repair are all the identity on it.
\<close>

theorem parseLogRow_idempotent:
  assumes "parseLogRow entry r = Inr (Some row, r')"
    and "all_stars (logReplacer r)"
    and "\<forall>(old, new) \<in> set (logReplacer r).
           old \<noteq> [] \<and> CHR ''*'' \<notin> set old \<and> CHR ''?'' \<notin> set old"
    and "passes_through (Content row) r'"
    and "Message entry2 = Content row"
  shows "parseLogRow entry2 r' = Inr (Some \<lparr>Time = EntryTime entry2, Content = Content row\<rparr>, r')"
proof -
  from parseLogRow_row[OF assms(1)] have r: "r' = r"
    and c: "Content row = ToValidUTF8 (Replace (logReplacer r) (emitted_text entry r)) ''?''"
    by simp_all
  from redacted_trimmed[OF assms(2) emitted_text_trimmed, of entry r] c
  have t: "TrimRightFunc (Content row) = Content row" by simp
  from assms(4) t assms(5) r have "passes_through (TrimRightFunc (Message entry2)) r" by simp
  from parseLogRow_passes_through[OF this]
  have "parseLogRow entry2 r = Inr (Some (plain_row entry2 r), r)" .
  moreover have "plain_row entry2 r = \<lparr>Time = EntryTime entry2, Content = Content row\<rparr>"
    using redacted_fixed[OF assms(2) assms(3), of "emitted_text entry r"] c t assms(5)
    by (simp add: plain_row_def)
  ultimately show ?thesis using r by simp
qed

theorem parseLogRow_idempotent_witness:
  "parseLogRow (line 1 (''my secret'' @ [CHR 0x0A])) secret_Reporter
     = Inr (Some \<lparr>Time = 1, Content = ''my ***''\<rparr>, secret_Reporter) \<and>
   parseLogRow (line 2 ''my ***'') secret_Reporter
     = Inr (Some \<lparr>Time = 2, Content = ''my ***''\<rparr>, secret_Reporter)"
proof -
  have a: "parseLogRow (line 1 (''my secret'' @ [CHR 0x0A])) secret_Reporter
             = Inr (Some \<lparr>Time = 1, Content = ''my ***''\<rparr>, secret_Reporter)"
    by code_simp
  have b: "all_stars (logReplacer secret_Reporter)"
    by (simp add: all_stars_def secret_Reporter_def)
  have c: "\<forall>(old, new) \<in> set (logReplacer secret_Reporter).
             old \<noteq> [] \<and> CHR ''*'' \<notin> set old \<and> CHR ''?'' \<notin> set old"
    by (simp add: secret_Reporter_def)
  have d: "passes_through (Content \<lparr>Time = 1, Content = ''my ***''\<rparr>) secret_Reporter"
    by code_simp
  have e: "Message (line 2 ''my ***'') = Content \<lparr>Time = 1, Content = ''my ***''\<rparr>"
    by (simp add: line_def)
  from parseLogRow_idempotent[OF a b c d e] a show ?thesis by (simp add: line_def)
qed

text \<open>
  Parsing a row's content again changes it when the content is the value of a \<open>debug\<close>
  command and is itself a command line, and when a mask contains the replacement's own
  character.
\<close>

theorem parseLogRow_reparse_counterexample:
  "parseLogRow (line 1 ''::debug::::debug::x'') (zero_Reporter\<lparr>debugOutputEnabled := True\<rparr>)
     = Inr (Some \<lparr>Time = 1, Content = ''::debug::x''\<rparr>, zero_Reporter\<lparr>debugOutputEnabled := True\<rparr>) \<and>
   parseLogRow (line 1 ''::debug::x'') (zero_Reporter\<lparr>debugOutputEnabled := True\<rparr>)
     = Inr (Some \<lparr>Time = 1, Content = ''x''\<rparr>, zero_Reporter\<lparr>debugOutputEnabled := True\<rparr>) \<and>
   parseLogRow (line 1 ''a*'') star_Reporter
     = Inr (Some \<lparr>Time = 1, Content = ''a***''\<rparr>, star_Reporter) \<and>
   parseLogRow (line 1 ''a***'') star_Reporter
     = Inr (Some \<lparr>Time = 1, Content = ''a*********''\<rparr>, star_Reporter)"
  by code_simp

section \<open>Properties of the redaction table\<close>












text \<open>
  The loop over the secrets seeds an empty value as well (the two tokens are guarded):
  the replacer then puts \<open>***\<close> at every position of a row.
\<close>

lemma NewReporter_empty_secret:
  "NewReporter \<lparr>TaskId = 7, Context = Some Map.empty, Secrets = [(''KEY'', '''')]\<rparr>
     = Inr (fresh_Reporter\<lparr>logReplacer := [('''', ''***'')], oldnew := ['''', ''***'']\<rparr>) \<and>
   parseLogRow (line 1 ''ab'')
       (fresh_Reporter\<lparr>logReplacer := [('''', ''***'')], oldnew := ['''', ''***'']\<rparr>)
     = Inr (Some \<lparr>Time = 1, Content = ''***a***b***''\<rparr>,
            fresh_Reporter\<lparr>logReplacer := [('''', ''***'')], oldnew := ['''', ''***'']\<rparr>)"
  by code_simp






end
